theory Spec2Isabelle
  imports Main
begin

section \<open>Python primitives used by ChessVar.py\<close>

text \<open>
  The exceptions the program can raise: \<open>ValueError\<close> from tuple unpacking and from
  \<open>int(...)\<close>, \<open>IndexError\<close> from list indexing.
\<close>

datatype error = ValueError | IndexError

text \<open>
  A Python string passed to \<open>make_move\<close> is the list of its Unicode code points, each
  an integer; \<open>py_str\<close> turns an Isabelle string literal into such a list. A board
  cell is a one-character ASCII string and is kept as a \<open>char\<close>.
\<close>

type_synonym pystr = "int list"

definition py_str :: "string \<Rightarrow> pystr" where
  "py_str s = map of_char s"

text \<open>
  The case functions below are Python's \<open>str.lower\<close>, \<open>str.islower\<close> and
  \<open>str.isupper\<close> on a one-character ASCII string, which is all a board cell ever holds.
\<close>

definition lower :: "char \<Rightarrow> char" where
  "lower c = (let n = (of_char c :: nat) in if 65 \<le> n \<and> n \<le> 90 then char_of (n + 32) else c)"

definition islower :: "char \<Rightarrow> bool" where
  "islower c = (let n = (of_char c :: nat) in 97 \<le> n \<and> n \<le> 122)"

definition isupper :: "char \<Rightarrow> bool" where
  "isupper c = (let n = (of_char c :: nat) in 65 \<le> n \<and> n \<le> 90)"

text \<open>
  Modelled from Python's Unicode database (Unicode 14.0, 660 characters), which is not
  part of the repository: the decimal digits of all scripts. They come in 66 runs of ten
  consecutive code points with the values 0 to 9; \<open>decimal_runs\<close> lists the first code
  point of each run (48 is \<open>'0'\<close>, 1632 is the Arabic-Indic zero, and so on).
\<close>

definition decimal_runs :: "int list" where
  "decimal_runs =
     [48, 1632, 1776, 1984, 2406, 2534, 2662, 2790, 2918, 3046, 3174, 3302, 3430, 3558,
      3664, 3792, 3872, 4160, 4240, 6112, 6160, 6470, 6608, 6784, 6800, 6992, 7088, 7232,
      7248, 42528, 43216, 43264, 43472, 43504, 43600, 44016, 65296, 66720, 68912, 69734,
      69872, 69942, 70096, 70384, 70736, 70864, 71248, 71360, 71472, 71904, 72016, 72784,
      73040, 73120, 92768, 92864, 93008, 120782, 120792, 120802, 120812, 120822, 123200,
      123632, 125264, 130032]"

text \<open>
  \<open>int(row)\<close> on a one-character string: the value of the character if it is a decimal
  digit of any script, else \<open>ValueError\<close> (\<open>None\<close>).
\<close>

definition py_int :: "int \<Rightarrow> int option" where
  "py_int c =
     (case find (\<lambda>s. s \<le> c \<and> c < s + 10) decimal_runs of
        None \<Rightarrow> None
      | Some s \<Rightarrow> Some (c - s))"

text \<open>
  List indexing \<open>xs[i]\<close> on a list of length \<open>n\<close>: a negative index counts from the end,
  an index outside \<open>-n .. n-1\<close> raises \<open>IndexError\<close> (\<open>None\<close>).
\<close>

definition norm_index :: "nat \<Rightarrow> int \<Rightarrow> nat option" where
  "norm_index n i =
     (if 0 \<le> i \<and> i < int n then Some (nat i)
      else if - int n \<le> i \<and> i < 0 then Some (nat (int n + i))
      else None)"

text \<open>
  \<open>range(a, b, step)\<close> for the two steps the program uses, \<open>1\<close> and \<open>-1\<close>;
  \<open>range(a, b)\<close> is \<open>range(a, b, 1)\<close>.
\<close>

definition py_range :: "int \<Rightarrow> int \<Rightarrow> int \<Rightarrow> int list" where
  "py_range a b step =
     (if step = 1 then [a..b - 1] else if step = - 1 then rev [b + 1..a] else [])"

section \<open>The game object\<close>

type_synonym board = "char list list"

datatype color = W | B

datatype outcome = UNFINISHED | WHITE_WON | BLACK_WON

record ChessVar =
  board :: board
  current_turn :: color
  game_state :: outcome

text \<open>
  \<open>__init__\<close>: the standard position, White to move. The two strings \<open>'W'\<close>, \<open>'B'\<close> of
  \<open>_current_turn\<close> and the three of \<open>_game_state\<close> are the constructors of \<open>color\<close> and
  \<open>outcome\<close>. \<open>print_board\<close> only prints and is not modelled.
\<close>

definition new_game :: ChessVar where
  "new_game =
     \<lparr> board =
         [''rnbqkbnr'',
          ''pppppppp'',
          ''        '',
          ''        '',
          ''        '',
          ''        '',
          ''PPPPPPPP'',
          ''RNBQKBNR''],
       current_turn = W,
       game_state = UNFINISHED \<rparr>"

definition get_game_state :: "ChessVar \<Rightarrow> outcome" where
  "get_game_state g = game_state g"

text \<open>\<open>self._board[r][c]\<close> as a read and \<open>self._board[r][c] = v\<close> as a write.\<close>

definition cell :: "board \<Rightarrow> int \<Rightarrow> int \<Rightarrow> char option" where
  "cell b r c =
     (case norm_index (length b) r of
        None \<Rightarrow> None
      | Some i \<Rightarrow>
          (case norm_index (length (b ! i)) c of
             None \<Rightarrow> None
           | Some j \<Rightarrow> Some (b ! i ! j)))"

definition set_cell :: "board \<Rightarrow> int \<Rightarrow> int \<Rightarrow> char \<Rightarrow> board option" where
  "set_cell b r c v =
     (case norm_index (length b) r of
        None \<Rightarrow> None
      | Some i \<Rightarrow>
          (case norm_index (length (b ! i)) c of
             None \<Rightarrow> None
           | Some j \<Rightarrow> Some (b[i := (b ! i)[j := v]])))"

section \<open>\<open>_convert_square_to_indices\<close>\<close>

definition convert_square_to_indices :: "pystr \<Rightarrow> error + int \<times> int" where
  "convert_square_to_indices square =
     (case square of
        [column, row] \<Rightarrow>
          (case py_int row of
             None \<Rightarrow> Inl ValueError
           | Some d \<Rightarrow> Inr (8 - d, column - of_char (CHR ''a'')))
      | _ \<Rightarrow> Inl ValueError)"

section \<open>\<open>_is_valid_move\<close>\<close>

text \<open>
  \<open>self._board[next_row][next_col] == ' ' or
   self._board[next_row][next_col].islower() != piece.islower()\<close>
\<close>

definition empty_or_opponent :: "board \<Rightarrow> char \<Rightarrow> int \<Rightarrow> int \<Rightarrow> error + bool" where
  "empty_or_opponent b piece r c =
     (case cell b r c of
        None \<Rightarrow> Inl IndexError
      | Some d \<Rightarrow> Inr (d = CHR '' '' \<or> islower d \<noteq> islower piece))"

text \<open>
  The \<open>for\<close> loops of the rook and the queen over the squares strictly between origin and
  destination: \<open>sq\<close> maps the loop variable to the square read, \<open>guarded\<close> is the rook's
  extra test \<open>not 0 <= col < 8\<close>. The result \<open>Inr False\<close> is the loop's \<open>return False\<close>,
  \<open>Inr True\<close> is the loop running to its end.
\<close>

fun scan :: "bool \<Rightarrow> board \<Rightarrow> (int \<Rightarrow> int \<times> int) \<Rightarrow> int list \<Rightarrow> error + bool" where
  "scan guarded b sq [] = Inr True"
| "scan guarded b sq (i # rest) =
     (if guarded \<and> \<not> (0 \<le> i \<and> i < 8) then Inr False
      else (case cell b (fst (sq i)) (snd (sq i)) of
              None \<Rightarrow> Inl IndexError
            | Some x \<Rightarrow> if x \<noteq> CHR '' '' then Inr False else scan guarded b sq rest))"

text \<open>
  The \<open>while row != next_row\<close> loop of the bishop and the queen. \<open>row_step\<close> and
  \<open>col_step\<close> are each \<open>1\<close> or \<open>-1\<close>; they are carried as the two comparisons the source
  computes them from (\<open>down\<close> is \<open>start_row < next_row\<close>, \<open>right\<close> is
  \<open>start_col < next_col\<close>).
\<close>

function diag_scan :: "board \<Rightarrow> int \<Rightarrow> int \<Rightarrow> int \<Rightarrow> bool \<Rightarrow> bool \<Rightarrow> error + bool" where
  "diag_scan b row col next_row down right =
     (if row = next_row then Inr True
      else (case cell b row col of
              None \<Rightarrow> Inl IndexError
            | Some x \<Rightarrow>
                if x \<noteq> CHR '' '' then Inr False
                else diag_scan b (row + (if down then 1 else - 1))
                       (col + (if right then 1 else - 1)) next_row down right))"
  by pat_completeness auto
termination
proof (relation "measure (\<lambda>(b, row, col, next_row, down, right).
                   if down then nat (int (length b) - row) else nat (int (length b) + row + 1))")
  show "wf (measure (\<lambda>(b, row, col, next_row, down, right).
              if down then nat (int (length b) - row) else nat (int (length b) + row + 1)))"
    by simp
next
  fix b :: board and row col next_row :: int and down right :: bool and x :: char
  assume "cell b row col = Some x"
  then have "- int (length b) \<le> row \<and> row < int (length b)"
    by (auto simp: cell_def norm_index_def split: option.splits if_splits)
  then show "((b, row + (if down then 1 else - 1), col + (if right then 1 else - 1),
               next_row, down, right),
              (b, row, col, next_row, down, right))
             \<in> measure (\<lambda>(b, row, col, next_row, down, right).
                  if down then nat (int (length b) - row) else nat (int (length b) + row + 1))"
    by auto
qed

definition king_move :: "board \<Rightarrow> char \<Rightarrow> int \<Rightarrow> int \<Rightarrow> int \<Rightarrow> int \<Rightarrow> error + bool" where
  "king_move b piece start_row start_col next_row next_col =
     (if \<bar>start_row - next_row\<bar> \<le> 1 \<and> \<bar>start_col - next_col\<bar> \<le> 1
      then empty_or_opponent b piece next_row next_col
      else Inr False)"

text \<open>The pawn branch reads \<open>self._current_turn\<close>, here \<open>t\<close>, for the direction.\<close>

definition pawn_move ::
  "board \<Rightarrow> color \<Rightarrow> char \<Rightarrow> int \<Rightarrow> int \<Rightarrow> int \<Rightarrow> int \<Rightarrow> error + bool" where
  "pawn_move b t piece start_row start_col next_row next_col =
     (if start_col = next_col then
        (if (t = W \<and> start_row - next_row = 1) \<or> (t = B \<and> next_row - start_row = 1) then
           (case cell b next_row next_col of
              None \<Rightarrow> Inl IndexError
            | Some d \<Rightarrow> Inr (d = CHR '' ''))
         else if (t = W \<and> start_row = 6 \<and> next_row = 4) \<or> (t = B \<and> start_row = 1 \<and> next_row = 3) then
           (case cell b next_row next_col of
              None \<Rightarrow> Inl IndexError
            | Some d \<Rightarrow>
                if d = CHR '' '' then
                  (case cell b ((start_row + next_row) div 2) next_col of
                     None \<Rightarrow> Inl IndexError
                   | Some m \<Rightarrow> Inr (m = CHR '' ''))
                else Inr False)
         else Inr False)
      else if \<bar>start_col - next_col\<bar> = 1 \<and>
              ((t = W \<and> start_row - next_row = 1) \<or> (t = B \<and> next_row - start_row = 1)) then
        (case cell b next_row next_col of
           None \<Rightarrow> Inl IndexError
         | Some d \<Rightarrow> Inr (d \<noteq> CHR '' '' \<and> islower d \<noteq> islower piece))
      else Inr False)"

definition rook_move :: "board \<Rightarrow> char \<Rightarrow> int \<Rightarrow> int \<Rightarrow> int \<Rightarrow> int \<Rightarrow> error + bool" where
  "rook_move b piece start_row start_col next_row next_col =
     (if start_row \<noteq> next_row \<and> start_col \<noteq> next_col then Inr False
      else
        (case (if start_row = next_row
               then (let step = (if start_col < next_col then 1 else - 1)
                     in scan True b (\<lambda>col. (start_row, col))
                          (py_range (start_col + step) next_col step))
               else (let step = (if start_row < next_row then 1 else - 1)
                     in scan True b (\<lambda>row. (row, start_col))
                          (py_range (start_row + step) next_row step))) of
           Inl e \<Rightarrow> Inl e
         | Inr False \<Rightarrow> Inr False
         | Inr True \<Rightarrow> empty_or_opponent b piece next_row next_col))"

text \<open>
  The knight's \<open>return A or B and C\<close> is \<open>A or (B and C)\<close>: with \<open>A\<close> true the board is
  not read.
\<close>

definition knight_move :: "board \<Rightarrow> char \<Rightarrow> int \<Rightarrow> int \<Rightarrow> int \<Rightarrow> int \<Rightarrow> error + bool" where
  "knight_move b piece start_row start_col next_row next_col =
     (let row_diff = \<bar>next_row - start_row\<bar>; col_diff = \<bar>next_col - start_col\<bar>
      in if row_diff = 1 \<and> col_diff = 2 then Inr True
         else if row_diff = 2 \<and> col_diff = 1 then empty_or_opponent b piece next_row next_col
         else Inr False)"

definition bishop_move :: "board \<Rightarrow> char \<Rightarrow> int \<Rightarrow> int \<Rightarrow> int \<Rightarrow> int \<Rightarrow> error + bool" where
  "bishop_move b piece start_row start_col next_row next_col =
     (if \<bar>start_row - next_row\<bar> \<noteq> \<bar>start_col - next_col\<bar> then Inr False
      else
        (let down = (start_row < next_row); right = (start_col < next_col)
         in case diag_scan b (start_row + (if down then 1 else - 1))
                   (start_col + (if right then 1 else - 1)) next_row down right of
              Inl e \<Rightarrow> Inl e
            | Inr False \<Rightarrow> Inr False
            | Inr True \<Rightarrow> empty_or_opponent b piece next_row next_col))"

definition queen_move :: "board \<Rightarrow> char \<Rightarrow> int \<Rightarrow> int \<Rightarrow> int \<Rightarrow> int \<Rightarrow> error + bool" where
  "queen_move b piece start_row start_col next_row next_col =
     (if start_row = next_row \<or> start_col = next_col \<or>
         \<bar>start_row - next_row\<bar> = \<bar>start_col - next_col\<bar> then
        (case (if start_row = next_row
               then (let step = (if start_col < next_col then 1 else - 1)
                     in scan False b (\<lambda>col. (start_row, col))
                          (py_range (start_col + step) next_col step))
               else if start_col = next_col
               then (let step = (if start_row < next_row then 1 else - 1)
                     in scan False b (\<lambda>row. (row, start_col))
                          (py_range (start_row + step) next_row step))
               else (let down = (start_row < next_row); right = (start_col < next_col)
                     in diag_scan b (start_row + (if down then 1 else - 1))
                          (start_col + (if right then 1 else - 1)) next_row down right)) of
           Inl e \<Rightarrow> Inl e
         | Inr False \<Rightarrow> Inr False
         | Inr True \<Rightarrow> empty_or_opponent b piece next_row next_col)
      else Inr False)"

text \<open>
  The verdict is \<open>Some\<close> of the boolean returned, or \<open>None\<close> where the function runs off
  its end (a piece symbol that is none of the six kinds, such as the blank of an empty
  square) and so returns Python's \<open>None\<close>.
\<close>

definition returned :: "error + bool \<Rightarrow> error + bool option" where
  "returned r = (case r of Inl e \<Rightarrow> Inl e | Inr v \<Rightarrow> Inr (Some v))"

definition is_valid_move ::
  "ChessVar \<Rightarrow> char \<Rightarrow> int \<Rightarrow> int \<Rightarrow> int \<Rightarrow> int \<Rightarrow> error + bool option" where
  "is_valid_move g piece start_row start_col next_row next_col =
     (if lower piece = CHR ''k'' then
        returned (king_move (board g) piece start_row start_col next_row next_col)
      else if lower piece = CHR ''p'' then
        returned (pawn_move (board g) (current_turn g) piece start_row start_col next_row next_col)
      else if lower piece = CHR ''r'' then
        returned (rook_move (board g) piece start_row start_col next_row next_col)
      else if lower piece = CHR ''n'' then
        returned (knight_move (board g) piece start_row start_col next_row next_col)
      else if lower piece = CHR ''b'' then
        returned (bishop_move (board g) piece start_row start_col next_row next_col)
      else if lower piece = CHR ''q'' then
        returned (queen_move (board g) piece start_row start_col next_row next_col)
      else Inr None)"

section \<open>\<open>_explosion\<close>\<close>

text \<open>
  One pass of the inner loop body at square \<open>(i, j)\<close>. The result carries the game as the
  body leaves it, and the exception if the read raised.
\<close>

definition explode_cell :: "ChessVar \<Rightarrow> int \<times> int \<Rightarrow> error option \<times> ChessVar" where
  "explode_cell g ij =
     (case cell (board g) (fst ij) (snd ij) of
        None \<Rightarrow> (Some IndexError, g)
      | Some x \<Rightarrow>
          if lower x \<noteq> CHR ''p'' then
            (let g1 = (if lower x = CHR ''k''
                       then g\<lparr>game_state := (if x = CHR ''K'' then BLACK_WON else WHITE_WON)\<rparr>
                       else g)
             in case set_cell (board g1) (fst ij) (snd ij) (CHR '' '') of
                  None \<Rightarrow> (Some IndexError, g1)
                | Some b' \<Rightarrow> (None, g1\<lparr>board := b'\<rparr>))
          else (None, g))"

fun explode_cells :: "ChessVar \<Rightarrow> (int \<times> int) list \<Rightarrow> error option \<times> ChessVar" where
  "explode_cells g [] = (None, g)"
| "explode_cells g (ij # rest) =
     (case explode_cell g ij of
        (Some e, g') \<Rightarrow> (Some e, g')
      | (None, g') \<Rightarrow> explode_cells g' rest)"

text \<open>The squares of the two nested \<open>for\<close> loops, in the order the loops visit them.\<close>

definition blast_squares :: "int \<Rightarrow> int \<Rightarrow> (int \<times> int) list" where
  "blast_squares row col =
     concat (map (\<lambda>i. map (\<lambda>j. (i, j)) (py_range (max 0 (col - 1)) (min 8 (col + 2)) 1))
               (py_range (max 0 (row - 1)) (min 8 (row + 2)) 1))"

definition explosion :: "ChessVar \<Rightarrow> int \<Rightarrow> int \<Rightarrow> error option \<times> ChessVar" where
  "explosion g row col = explode_cells g (blast_squares row col)"

section \<open>\<open>make_move\<close>\<close>

text \<open>
  A call either returns a boolean or raises; in both cases the object is left in some
  state, which is the second component of the result.
\<close>

datatype result = Returned bool | Raised error

definition other :: "color \<Rightarrow> color" where
  "other t = (if t = W then B else W)"

text \<open>
  The part of \<open>make_move\<close> after \<open>_is_valid_move\<close> has answered true. \<open>piece\<close> is never
  the empty string, so the test \<open>not piece\<close> of the ownership gate is always false and
  is left out of \<open>make_move\<close> below.
\<close>

definition apply_move ::
  "ChessVar \<Rightarrow> char \<Rightarrow> int \<Rightarrow> int \<Rightarrow> int \<Rightarrow> int \<Rightarrow> result \<times> ChessVar" where
  "apply_move g piece start_row start_col next_row to_col =
     (case cell (board g) next_row to_col of
        None \<Rightarrow> (Raised IndexError, g)
      | Some captured_piece \<Rightarrow>
          (case set_cell (board g) next_row to_col piece of
             None \<Rightarrow> (Raised IndexError, g)
           | Some b1 \<Rightarrow>
               (case set_cell b1 start_row start_col (CHR '' '') of
                  None \<Rightarrow> (Raised IndexError, g\<lparr>board := b1\<rparr>)
                | Some b2 \<Rightarrow>
                    (let g2 = g\<lparr>board := b2\<rparr>;
                         (err, g3) =
                           (if captured_piece \<noteq> CHR '' '' then
                              explosion
                                (if lower captured_piece = CHR ''k'' \<or> lower piece = CHR ''k''
                                 then g2\<lparr>game_state :=
                                        (if lower captured_piece = CHR ''k''
                                         then WHITE_WON else BLACK_WON)\<rparr>
                                 else g2)
                                next_row to_col
                            else (None, g2))
                     in case err of
                          Some e \<Rightarrow> (Raised e, g3)
                        | None \<Rightarrow>
                            (Returned True,
                             if game_state g3 = UNFINISHED
                             then g3\<lparr>current_turn := other (current_turn g3)\<rparr>
                             else g3)))))"

definition make_move :: "ChessVar \<Rightarrow> pystr \<Rightarrow> pystr \<Rightarrow> result \<times> ChessVar" where
  "make_move g start_square next_square =
     (if game_state g \<noteq> UNFINISHED then (Returned False, g)
      else
        (case convert_square_to_indices start_square of
           Inl e \<Rightarrow> (Raised e, g)
         | Inr (start_row, start_col) \<Rightarrow>
             (case convert_square_to_indices next_square of
                Inl e \<Rightarrow> (Raised e, g)
              | Inr (next_row, to_col) \<Rightarrow>
                  if \<not> (0 \<le> next_row \<and> next_row < 8 \<and> 0 \<le> to_col \<and> to_col < 8)
                  then (Returned False, g)
                  else
                    (case cell (board g) start_row start_col of
                       None \<Rightarrow> (Raised IndexError, g)
                     | Some piece \<Rightarrow>
                         if (islower piece \<and> current_turn g = W) \<or>
                            (isupper piece \<and> current_turn g = B)
                         then (Returned False, g)
                         else
                           (case is_valid_move g piece start_row start_col next_row to_col of
                              Inl e \<Rightarrow> (Raised e, g)
                            | Inr (Some True) \<Rightarrow>
                                apply_move g piece start_row start_col next_row to_col
                            | Inr _ \<Rightarrow> (Returned False, g))))))"

text \<open>A sequence of calls on the same object; the results are dropped, the object kept.\<close>

fun play :: "ChessVar \<Rightarrow> (pystr \<times> pystr) list \<Rightarrow> ChessVar" where
  "play g [] = g"
| "play g (m # ms) = play (snd (make_move g (fst m) (snd m))) ms"

section \<open>Notions used to state and prove the properties\<close>

text \<open>The shape of the board: eight rows of eight cells. No operation changes it.\<close>

definition wf_board :: "board \<Rightarrow> bool" where
  "wf_board b \<longleftrightarrow> length b = 8 \<and> (\<forall>row \<in> set b. length row = 8)"

text \<open>
  What one pass of the blast loop body does at the square in row \<open>i\<close>, column \<open>j\<close> of
  an 8 by 8 board, where no read or write can raise.
\<close>

definition blasted :: "ChessVar \<Rightarrow> nat \<Rightarrow> nat \<Rightarrow> ChessVar" where
  "blasted g i j =
     (let x = board g ! i ! j
      in if lower x \<noteq> CHR ''p''
         then g\<lparr>game_state := (if lower x = CHR ''k''
                               then (if x = CHR ''K'' then BLACK_WON else WHITE_WON)
                               else game_state g),
                board := (board g)[i := (board g ! i)[j := CHR '' '']]\<rparr>
         else g)"

text \<open>
  The clipped 3 by 3 neighbourhood of \<open>(r, c)\<close>: rows \<open>max(0, r-1) .. min(7, r+1)\<close>,
  columns \<open>max(0, c-1) .. min(7, c+1)\<close>.
\<close>

definition in_blast :: "int \<Rightarrow> int \<Rightarrow> int \<Rightarrow> int \<Rightarrow> bool" where
  "in_blast r c i j \<longleftrightarrow>
     max 0 (r - 1) \<le> i \<and> i \<le> min 7 (r + 1) \<and> max 0 (c - 1) \<le> j \<and> j \<le> min 7 (c + 1)"

text \<open>A list of squares, all of them on the board.\<close>

definition on_board :: "(int \<times> int) list \<Rightarrow> bool" where
  "on_board sqs \<longleftrightarrow> (\<forall>ij \<in> set sqs. 0 \<le> fst ij \<and> fst ij < 8 \<and> 0 \<le> snd ij \<and> snd ij < 8)"

text \<open>
  The outcome after the blast has visited cells holding \<open>xs\<close>, in this order, starting
  from outcome \<open>st\<close>: the last king met decides.
\<close>

definition kings_outcome :: "outcome \<Rightarrow> char list \<Rightarrow> outcome" where
  "kings_outcome st xs =
     (let ks = filter (\<lambda>x. lower x = CHR ''k'') xs
      in if ks = [] then st else if last ks = CHR ''K'' then BLACK_WON else WHITE_WON)"

text \<open>The end of \<open>make_move\<close>: the turn passes on if the game is still going.\<close>

definition advance :: "ChessVar \<Rightarrow> ChessVar" where
  "advance h = (if game_state h = UNFINISHED then h\<lparr>current_turn := other (current_turn h)\<rparr> else h)"

text \<open>The outcome set by \<open>make_move\<close> before the explosion, when a king takes or is taken.\<close>

definition marked :: "ChessVar \<Rightarrow> char \<Rightarrow> char \<Rightarrow> ChessVar" where
  "marked h captured piece =
     (if lower captured = CHR ''k'' \<or> lower piece = CHR ''k''
      then h\<lparr>game_state := (if lower captured = CHR ''k'' then WHITE_WON else BLACK_WON)\<rparr>
      else h)"

text \<open>
  The decimal digits of Unicode 14.0 as blocks: the first and the last code point of each
  script's digits zero to nine (\<open>'0'\<close> to \<open>'9'\<close> are 48 to 57).
\<close>

definition decimal_blocks :: "(int \<times> int) list" where
  "decimal_blocks =
     [(48, 57), (1632, 1641), (1776, 1785), (1984, 1993), (2406, 2415), (2534, 2543),
      (2662, 2671), (2790, 2799), (2918, 2927), (3046, 3055), (3174, 3183), (3302, 3311),
      (3430, 3439), (3558, 3567), (3664, 3673), (3792, 3801), (3872, 3881), (4160, 4169),
      (4240, 4249), (6112, 6121), (6160, 6169), (6470, 6479), (6608, 6617), (6784, 6793),
      (6800, 6809), (6992, 7001), (7088, 7097), (7232, 7241), (7248, 7257), (42528, 42537),
      (43216, 43225), (43264, 43273), (43472, 43481), (43504, 43513), (43600, 43609),
      (44016, 44025), (65296, 65305), (66720, 66729), (68912, 68921), (69734, 69743),
      (69872, 69881), (69942, 69951), (70096, 70105), (70384, 70393), (70736, 70745),
      (70864, 70873), (71248, 71257), (71360, 71369), (71472, 71481), (71904, 71913),
      (72016, 72025), (72784, 72793), (73040, 73049), (73120, 73129), (92768, 92777),
      (92864, 92873), (93008, 93017), (120782, 120791), (120792, 120801), (120802, 120811),
      (120812, 120821), (120822, 120831), (123200, 123209), (123632, 123641),
      (125264, 125273), (130032, 130041)]"

text \<open>A decimal digit of any script; one with a value from 1 to 8 lies inside its block.\<close>

definition decimal_digit :: "int \<Rightarrow> bool" where
  "decimal_digit c = list_ex (\<lambda>(lo, hi). lo \<le> c \<and> c \<le> hi) decimal_blocks"

definition rank_digit :: "int \<Rightarrow> bool" where
  "rank_digit c = list_ex (\<lambda>(lo, hi). lo < c \<and> c < hi) decimal_blocks"

text \<open>
  A string that \<open>_convert_square_to_indices\<close> can translate: exactly two characters, the
  second a decimal digit.
\<close>

definition parses :: "pystr \<Rightarrow> bool" where
  "parses s = (case s of [column, row] \<Rightarrow> decimal_digit row | _ \<Rightarrow> False)"

text \<open>
  Square notation proper: a file letter \<open>'a'\<close> to \<open>'h'\<close> (code points 97 to 104) followed
  by a rank digit with a value from 1 to 8.
\<close>

definition names_square :: "pystr \<Rightarrow> bool" where
  "names_square s =
     (case s of
        [column, row] \<Rightarrow> 97 \<le> column \<and> column \<le> 104 \<and> rank_digit row
      | _ \<Rightarrow> False)"

text \<open>How many cells of the board hold the symbol \<open>k\<close>.\<close>

definition kings :: "char \<Rightarrow> board \<Rightarrow> nat" where
  "kings k b = count_list (concat b) k"

text \<open>What holds in every state that calls of \<open>make_move\<close> can reach from \<open>new_game\<close>.\<close>

definition king_inv :: "ChessVar \<Rightarrow> bool" where
  "king_inv g \<longleftrightarrow>
     wf_board (board g) \<and>
     kings (CHR ''K'') (board g) \<le> 1 \<and> kings (CHR ''k'') (board g) \<le> 1 \<and>
     (game_state g = UNFINISHED \<longrightarrow>
        kings (CHR ''K'') (board g) = 1 \<and> kings (CHR ''k'') (board g) = 1)"

section \<open>Properties\<close>

subsection \<open>Characters, indices and the shape of the board\<close>

lemma lower_blank: "lower (CHR '' '') = CHR '' ''"
  by (simp add: lower_def)

lemma lower_eq_k: "lower c = CHR ''k'' \<longleftrightarrow> c = CHR ''k'' \<or> c = CHR ''K''"
proof -
  have "char_of (of_char c + 32 :: nat) = CHR ''k'' \<longleftrightarrow> c = CHR ''K''"
    if "(of_char c :: nat) \<le> 90"
  proof -
    have "char_of (of_char c + 32 :: nat) = CHR ''k'' \<longleftrightarrow>
          (of_char (char_of (of_char c + 32 :: nat)) :: nat) = of_char (CHR ''k'')"
      by (simp only: of_char_eq_iff)
    also have "\<dots> \<longleftrightarrow> (of_char c :: nat) = of_char (CHR ''K'')"
      using that by (simp add: mod_if)
    also have "\<dots> \<longleftrightarrow> c = CHR ''K''"
      by (simp only: of_char_eq_iff)
    finally show ?thesis .
  qed
  moreover have "(of_char c :: nat) \<noteq> 107" if "c = CHR ''K''" using that by simp
  moreover have "\<not> (65 \<le> (of_char c :: nat) \<and> (of_char c :: nat) \<le> 90)" if "c = CHR ''k''"
    using that by simp
  moreover have "65 \<le> (of_char c :: nat) \<and> (of_char c :: nat) \<le> 90" if "c = CHR ''K''"
    using that by simp
  ultimately show ?thesis
    by (auto simp: lower_def Let_def)
qed

lemma wf_board_row: "wf_board b \<Longrightarrow> i < 8 \<Longrightarrow> length (b ! i) = 8"
  by (simp add: wf_board_def)

lemma wf_board_length: "wf_board b \<Longrightarrow> length b = 8"
  by (simp add: wf_board_def)

lemma norm_index_in_range: "0 \<le> i \<Longrightarrow> i < int n \<Longrightarrow> norm_index n i = Some (nat i)"
  by (simp add: norm_index_def)

lemma norm_index_less: "norm_index n i = Some k \<Longrightarrow> k < n"
  by (auto simp: norm_index_def split: if_splits)

lemma wf_cell:
  "wf_board b \<Longrightarrow> 0 \<le> r \<Longrightarrow> r < 8 \<Longrightarrow> 0 \<le> c \<Longrightarrow> c < 8 \<Longrightarrow>
     cell b r c = Some (b ! nat r ! nat c)"
  by (simp add: cell_def norm_index_in_range wf_board_length wf_board_row)

lemma wf_set_cell:
  "wf_board b \<Longrightarrow> 0 \<le> r \<Longrightarrow> r < 8 \<Longrightarrow> 0 \<le> c \<Longrightarrow> c < 8 \<Longrightarrow>
     set_cell b r c v = Some (b[nat r := (b ! nat r)[nat c := v]])"
  by (simp add: set_cell_def norm_index_in_range wf_board_length wf_board_row)

lemma wf_board_update: "wf_board b \<Longrightarrow> wf_board (b[i := (b ! i)[j := v]])"
proof (cases "i < length b")
  case True
  assume "wf_board b"
  with True show ?thesis
    by (auto simp: wf_board_def dest!: subsetD [OF set_update_subset_insert])
next
  case False
  assume "wf_board b"
  with False show ?thesis
    by (metis list_update_beyond not_less)
qed

lemma nth_board_update:
  "wf_board b \<Longrightarrow> i0 < 8 \<Longrightarrow> j0 < 8 \<Longrightarrow> i < 8 \<Longrightarrow> j < 8 \<Longrightarrow>
     b[i0 := (b ! i0)[j0 := v]] ! i ! j = (if i = i0 \<and> j = j0 then v else b ! i ! j)"
  by (simp add: nth_list_update wf_board_length wf_board_row)

subsection \<open>The paths through \<open>make_move\<close>\<close>

lemma make_move_finished:
  "game_state g \<noteq> UNFINISHED \<Longrightarrow> make_move g a b = (Returned False, g)"
  by (simp add: make_move_def)

lemma play_finished: "game_state g \<noteq> UNFINISHED \<Longrightarrow> play g ms = g"
  by (induction ms) (simp_all add: make_move_finished)

lemma make_move_cases:
  "make_move g a b = (Returned False, g) \<or>
   (\<exists>e. make_move g a b = (Raised e, g)) \<or>
   (\<exists>piece sr sc nr nc.
      game_state g = UNFINISHED \<and>
      convert_square_to_indices a = Inr (sr, sc) \<and>
      convert_square_to_indices b = Inr (nr, nc) \<and>
      0 \<le> nr \<and> nr < 8 \<and> 0 \<le> nc \<and> nc < 8 \<and>
      cell (board g) sr sc = Some piece \<and>
      \<not> ((islower piece \<and> current_turn g = W) \<or> (isupper piece \<and> current_turn g = B)) \<and>
      is_valid_move g piece sr sc nr nc = Inr (Some True) \<and>
      make_move g a b = apply_move g piece sr sc nr nc)"
  by (auto simp: make_move_def split: sum.splits option.splits bool.splits prod.splits)

subsection \<open>One blast step on an 8 by 8 board\<close>

lemma explode_cell_wf:
  assumes "wf_board (board g)" "0 \<le> i" "i < 8" "0 \<le> j" "j < 8"
  shows "explode_cell g (i, j) = (None, blasted g (nat i) (nat j))"
  using assms by (simp add: explode_cell_def blasted_def wf_cell wf_set_cell Let_def)

lemma wf_blasted: "wf_board (board g) \<Longrightarrow> wf_board (board (blasted g i j))"
  by (simp add: blasted_def Let_def wf_board_update)

lemma turn_blasted: "current_turn (blasted g i j) = current_turn g"
  by (simp add: blasted_def Let_def)

lemma lower_eq_p: "lower c = CHR ''p'' \<longleftrightarrow> c = CHR ''p'' \<or> c = CHR ''P''"
proof -
  have "char_of (of_char c + 32 :: nat) = CHR ''p'' \<longleftrightarrow> c = CHR ''P''"
    if "(of_char c :: nat) \<le> 90"
  proof -
    have "char_of (of_char c + 32 :: nat) = CHR ''p'' \<longleftrightarrow>
          (of_char (char_of (of_char c + 32 :: nat)) :: nat) = of_char (CHR ''p'')"
      by (simp only: of_char_eq_iff)
    also have "\<dots> \<longleftrightarrow> (of_char c :: nat) = of_char (CHR ''P'')"
      using that by (simp add: mod_if)
    also have "\<dots> \<longleftrightarrow> c = CHR ''P''"
      by (simp only: of_char_eq_iff)
    finally show ?thesis .
  qed
  moreover have "\<not> (65 \<le> (of_char c :: nat) \<and> (of_char c :: nat) \<le> 90)" if "c = CHR ''p''"
    using that by simp
  moreover have "65 \<le> (of_char c :: nat) \<and> (of_char c :: nat) \<le> 90" if "c = CHR ''P''"
    using that by simp
  ultimately show ?thesis
    by (auto simp: lower_def Let_def)
qed

subsection \<open>The squares of the blast\<close>

lemma blast_squares_product:
  "blast_squares r c =
     List.product [max 0 (r - 1)..min 8 (r + 2) - 1] [max 0 (c - 1)..min 8 (c + 2) - 1]"
  by (simp add: blast_squares_def py_range_def product_concat_map)

lemma set_blast_squares: "(i, j) \<in> set (blast_squares r c) \<longleftrightarrow> in_blast r c i j"
  by (auto simp: blast_squares_product in_blast_def)

lemma distinct_blast_squares: "distinct (blast_squares r c)"
  by (simp add: blast_squares_product distinct_product)

lemma blast_squares_in_range:
  "ij \<in> set (blast_squares r c) \<Longrightarrow> 0 \<le> fst ij \<and> fst ij < 8 \<and> 0 \<le> snd ij \<and> snd ij < 8"
  by (cases ij) (auto simp: blast_squares_product)

lemma on_board_Cons:
  "on_board ((i, j) # sqs) \<longleftrightarrow> 0 \<le> i \<and> i < 8 \<and> 0 \<le> j \<and> j < 8 \<and> on_board sqs"
  by (auto simp: on_board_def)

lemma explode_cells_Cons_wf:
  "wf_board (board g) \<Longrightarrow> on_board ((i, j) # sqs) \<Longrightarrow>
     explode_cells g ((i, j) # sqs) = explode_cells (blasted g (nat i) (nat j)) sqs"
  by (simp add: on_board_Cons explode_cell_wf)

lemma explode_cells_ok:
  "wf_board (board g) \<Longrightarrow> on_board sqs \<Longrightarrow>
     fst (explode_cells g sqs) = None \<and>
     wf_board (board (snd (explode_cells g sqs))) \<and>
     current_turn (snd (explode_cells g sqs)) = current_turn g"
proof (induction sqs arbitrary: g)
  case Nil
  then show ?case by simp
next
  case (Cons ij sqs)
  obtain i j where ij: "ij = (i, j)" by (cases ij)
  from Cons.prems have step:
    "explode_cells g (ij # sqs) = explode_cells (blasted g (nat i) (nat j)) sqs"
    unfolding ij by (rule explode_cells_Cons_wf)
  from Cons.prems have "on_board sqs" by (simp add: ij on_board_Cons)
  with Cons.IH [of "blasted g (nat i) (nat j)"] Cons.prems(1) show ?case
    unfolding step by (simp add: wf_blasted turn_blasted)
qed

lemma board_blasted:
  "wf_board (board g) \<Longrightarrow> i0 < 8 \<Longrightarrow> j0 < 8 \<Longrightarrow> i < 8 \<Longrightarrow> j < 8 \<Longrightarrow>
     board (blasted g i0 j0) ! i ! j =
       (if i = i0 \<and> j = j0 \<and> lower (board g ! i ! j) \<noteq> CHR ''p'' then CHR '' ''
        else board g ! i ! j)"
  by (auto simp: blasted_def Let_def nth_board_update)

lemma explode_cells_board:
  "wf_board (board g) \<Longrightarrow> on_board sqs \<Longrightarrow> i < 8 \<Longrightarrow> j < 8 \<Longrightarrow>
     board (snd (explode_cells g sqs)) ! i ! j =
       (if (int i, int j) \<in> set sqs \<and> lower (board g ! i ! j) \<noteq> CHR ''p'' then CHR '' ''
        else board g ! i ! j)"
proof (induction sqs arbitrary: g)
  case Nil
  then show ?case by simp
next
  case (Cons ij sqs)
  obtain i0 j0 where ij: "ij = (i0, j0)" by (cases ij)
  from Cons.prems(1,2) have step:
    "explode_cells g (ij # sqs) = explode_cells (blasted g (nat i0) (nat j0)) sqs"
    unfolding ij by (rule explode_cells_Cons_wf)
  from Cons.prems have rest: "on_board sqs" and rng: "0 \<le> i0" "i0 < 8" "0 \<le> j0" "j0 < 8"
    by (simp_all add: ij on_board_Cons)
  have here: "(int i, int j) = (i0, j0) \<longleftrightarrow> i = nat i0 \<and> j = nat j0"
    using rng by auto
  have b1: "board (blasted g (nat i0) (nat j0)) ! i ! j =
       (if i = nat i0 \<and> j = nat j0 \<and> lower (board g ! i ! j) \<noteq> CHR ''p'' then CHR '' ''
        else board g ! i ! j)"
    using Cons.prems rng by (intro board_blasted) auto
  have ih: "board (snd (explode_cells (blasted g (nat i0) (nat j0)) sqs)) ! i ! j =
       (if (int i, int j) \<in> set sqs \<and> lower (board (blasted g (nat i0) (nat j0)) ! i ! j) \<noteq> CHR ''p''
        then CHR '' '' else board (blasted g (nat i0) (nat j0)) ! i ! j)"
    using Cons.prems rest by (intro Cons.IH) (auto simp: wf_blasted)
  show ?case
    unfolding step ih b1 using here by (auto simp: ij lower_blank)
qed

subsection \<open>The outcome after a blast\<close>

lemma kings_outcome_Cons:
  "kings_outcome st (x # xs) =
     kings_outcome (if lower x = CHR ''k'' then (if x = CHR ''K'' then BLACK_WON else WHITE_WON) else st) xs"
  by (simp add: kings_outcome_def Let_def)

lemma state_blasted:
  "game_state (blasted g i j) =
     (if lower (board g ! i ! j) = CHR ''k''
      then (if board g ! i ! j = CHR ''K'' then BLACK_WON else WHITE_WON)
      else game_state g)"
  by (auto simp: blasted_def Let_def lower_eq_k lower_eq_p)

lemma explode_cells_outcome:
  "wf_board (board g) \<Longrightarrow> on_board sqs \<Longrightarrow> distinct sqs \<Longrightarrow>
     game_state (snd (explode_cells g sqs)) =
       kings_outcome (game_state g) (map (\<lambda>ij. board g ! nat (fst ij) ! nat (snd ij)) sqs)"
proof (induction sqs arbitrary: g)
  case Nil
  then show ?case by (simp add: kings_outcome_def)
next
  case (Cons ij sqs)
  obtain i0 j0 where ij: "ij = (i0, j0)" by (cases ij)
  let ?g1 = "blasted g (nat i0) (nat j0)"
  from Cons.prems(1,2) have step: "explode_cells g (ij # sqs) = explode_cells ?g1 sqs"
    unfolding ij by (rule explode_cells_Cons_wf)
  from Cons.prems have rest: "on_board sqs" and rng: "0 \<le> i0" "i0 < 8" "0 \<le> j0" "j0 < 8"
    and fresh: "(i0, j0) \<notin> set sqs" and dist: "distinct sqs"
    by (simp_all add: ij on_board_Cons)
  have same: "map (\<lambda>ij. board ?g1 ! nat (fst ij) ! nat (snd ij)) sqs =
              map (\<lambda>ij. board g ! nat (fst ij) ! nat (snd ij)) sqs"
  proof (rule map_cong [OF refl])
    fix p assume p: "p \<in> set sqs"
    with rest have pr: "0 \<le> fst p" "fst p < 8" "0 \<le> snd p" "snd p < 8"
      by (auto simp: on_board_def)
    from p fresh have "p \<noteq> (i0, j0)" by auto
    then have "\<not> (nat (fst p) = nat i0 \<and> nat (snd p) = nat j0)"
      using pr rng by (cases p) auto
    then show "board ?g1 ! nat (fst p) ! nat (snd p) = board g ! nat (fst p) ! nat (snd p)"
      using Cons.prems(1) pr rng by (subst board_blasted) auto
  qed
  have "game_state (snd (explode_cells ?g1 sqs)) =
        kings_outcome (game_state ?g1) (map (\<lambda>ij. board ?g1 ! nat (fst ij) ! nat (snd ij)) sqs)"
    using Cons.prems(1) rest dist by (intro Cons.IH) (auto simp: wf_blasted)
  then show ?case
    unfolding step same by (simp add: ij kings_outcome_Cons state_blasted)
qed

lemma explode_cell_king:
  "cell (board g) i j = Some x \<Longrightarrow> lower x = CHR ''k'' \<Longrightarrow>
     game_state (snd (explode_cell g (i, j))) = (if x = CHR ''K'' then BLACK_WON else WHITE_WON)"
  by (auto simp: explode_cell_def Let_def split: option.splits)

lemma wf_cell_phys:
  "wf_board b \<Longrightarrow>
     cell b r c = Some x \<longleftrightarrow>
       (\<exists>i j. norm_index 8 r = Some i \<and> norm_index 8 c = Some j \<and> x = b ! i ! j)"
  by (auto simp: cell_def wf_board_length wf_board_row dest: norm_index_less
           split: option.splits)

lemma wf_set_cell_phys:
  "wf_board b \<Longrightarrow> norm_index 8 r = Some i \<Longrightarrow> norm_index 8 c = Some j \<Longrightarrow>
     set_cell b r c v = Some (b[i := (b ! i)[j := v]])"
  by (auto simp: set_cell_def wf_board_length wf_board_row dest: norm_index_less)

subsection \<open>What the explosion never changes\<close>

lemma explode_cell_turn: "current_turn (snd (explode_cell g ij)) = current_turn g"
  by (simp add: explode_cell_def Let_def split: option.splits)

lemma explode_cells_turn: "current_turn (snd (explode_cells g sqs)) = current_turn g"
proof (induction sqs arbitrary: g)
  case Nil
  show ?case by simp
next
  case (Cons ij sqs)
  obtain e g1 where c: "explode_cell g ij = (e, g1)" by (cases "explode_cell g ij")
  then have "current_turn g1 = current_turn g"
    using explode_cell_turn [of g ij] by simp
  with Cons [of g1] c show ?case
    by (cases e) simp_all
qed

lemma explosion_turn: "current_turn (snd (explosion g r c)) = current_turn g"
  by (simp add: explosion_def explode_cells_turn)

lemma explosion_ok:
  assumes "wf_board (board g)" "0 \<le> r" "r < 8" "0 \<le> c" "c < 8"
  shows "fst (explosion g r c) = None" "wf_board (board (snd (explosion g r c)))"
proof -
  have "on_board (blast_squares r c)"
    unfolding on_board_def using blast_squares_in_range by blast
  with assms(1) show "fst (explosion g r c) = None" "wf_board (board (snd (explosion g r c)))"
    unfolding explosion_def by (simp_all add: explode_cells_ok)
qed

lemma explode_cell_state:
  "game_state g \<noteq> UNFINISHED \<Longrightarrow> game_state (snd (explode_cell g ij)) \<noteq> UNFINISHED"
  by (simp add: explode_cell_def Let_def split: option.splits)

lemma explode_cells_state:
  "game_state g \<noteq> UNFINISHED \<Longrightarrow> game_state (snd (explode_cells g sqs)) \<noteq> UNFINISHED"
proof (induction sqs arbitrary: g)
  case Nil
  then show ?case by simp
next
  case (Cons ij sqs)
  obtain e g1 where c: "explode_cell g ij = (e, g1)" by (cases "explode_cell g ij")
  then have "game_state g1 \<noteq> UNFINISHED"
    using explode_cell_state [OF Cons.prems, of ij] by simp
  with Cons.IH [of g1] c show ?case
    by (cases e) simp_all
qed

subsection \<open>Applying a legal move\<close>

lemma apply_move_turn:
  "current_turn (snd (apply_move g piece sr sc nr nc)) =
     (if fst (apply_move g piece sr sc nr nc) = Returned True \<and>
         game_state (snd (apply_move g piece sr sc nr nc)) = UNFINISHED
      then other (current_turn g) else current_turn g)"
proof (cases "cell (board g) nr nc")
  case None
  then show ?thesis by (simp add: apply_move_def)
next
  case (Some captured)
  note cap = this
  show ?thesis
  proof (cases "set_cell (board g) nr nc piece")
    case None
    with cap show ?thesis by (simp add: apply_move_def)
  next
    case (Some b1)
    note s1 = this
    show ?thesis
    proof (cases "set_cell b1 sr sc (CHR '' '')")
      case None
      with cap s1 show ?thesis by (simp add: apply_move_def)
    next
      case (Some b2)
      define h where "h =
        (if lower captured = CHR ''k'' \<or> lower piece = CHR ''k''
         then g\<lparr>board := b2, game_state :=
                (if lower captured = CHR ''k'' then WHITE_WON else BLACK_WON)\<rparr>
         else g\<lparr>board := b2\<rparr>)"
      define ex where "ex =
        (if captured \<noteq> CHR '' '' then explosion h nr nc else (None, g\<lparr>board := b2\<rparr>))"
      obtain err g3 where ex: "ex = (err, g3)" by (cases ex)
      have "current_turn (snd ex) = current_turn g"
        by (simp add: ex_def h_def explosion_turn)
      with ex have t3: "current_turn g3 = current_turn g" by simp
      have am: "apply_move g piece sr sc nr nc =
        (case err of Some e \<Rightarrow> (Raised e, g3)
         | None \<Rightarrow> (Returned True,
             if game_state g3 = UNFINISHED then g3\<lparr>current_turn := other (current_turn g3)\<rparr>
             else g3))"
        using cap s1 Some ex unfolding ex_def h_def
        by (simp add: apply_move_def Let_def)
      show ?thesis
        unfolding am using t3 by (cases err) simp_all
    qed
  qed
qed

lemma apply_move_wf:
  assumes wf: "wf_board (board g)"
    and src: "norm_index 8 sr = Some i" "norm_index 8 sc = Some j"
    and dst: "0 \<le> nr" "nr < 8" "0 \<le> nc" "nc < 8"
  shows "apply_move g piece sr sc nr nc =
     (let captured = board g ! nat nr ! nat nc;
          b1 = (board g)[nat nr := (board g ! nat nr)[nat nc := piece]];
          g2 = g\<lparr>board := b1[i := (b1 ! i)[j := CHR '' '']]\<rparr>
      in (Returned True,
          advance (if captured \<noteq> CHR '' '' then snd (explosion (marked g2 captured piece) nr nc)
                   else g2)))"
proof -
  define captured where "captured = board g ! nat nr ! nat nc"
  define b1 where "b1 = (board g)[nat nr := (board g ! nat nr)[nat nc := piece]]"
  define g2 where "g2 = g\<lparr>board := b1[i := (b1 ! i)[j := CHR '' '']]\<rparr>"
  have c: "cell (board g) nr nc = Some captured"
    using wf dst by (simp add: wf_cell captured_def)
  have s1: "set_cell (board g) nr nc piece = Some b1"
    using wf dst by (simp add: wf_set_cell b1_def)
  have wf1: "wf_board b1"
    unfolding b1_def using wf by (rule wf_board_update)
  have s2: "set_cell b1 sr sc (CHR '' '') = Some (b1[i := (b1 ! i)[j := CHR '' '']])"
    using wf1 src by (rule wf_set_cell_phys)
  have wf2: "wf_board (board g2)"
    unfolding g2_def using wf1 by (simp add: wf_board_update)
  then have wfm: "wf_board (board (marked g2 captured piece))"
    by (simp add: marked_def)
  have ok: "fst (explosion (marked g2 captured piece) nr nc) = None"
    using wfm dst by (rule explosion_ok)
  obtain err g3 where ex: "explosion (marked g2 captured piece) nr nc = (err, g3)"
    by (cases "explosion (marked g2 captured piece) nr nc")
  with ok have err: "err = None" by simp
  have "apply_move g piece sr sc nr nc =
     (Returned True,
      advance (if captured \<noteq> CHR '' '' then snd (explosion (marked g2 captured piece) nr nc)
               else g2))"
    using ex err
    by (simp add: apply_move_def c s1 s2 Let_def advance_def marked_def g2_def)
  then show ?thesis
    by (simp add: Let_def captured_def b1_def g2_def)
qed

lemma apply_move_returns:
  assumes "wf_board (board g)" "cell (board g) sr sc = Some piece"
    "0 \<le> nr" "nr < 8" "0 \<le> nc" "nc < 8"
  shows "fst (apply_move g piece sr sc nr nc) = Returned True"
proof -
  from assms(1,2) obtain i j where "norm_index 8 sr = Some i" "norm_index 8 sc = Some j"
    by (auto simp: wf_cell_phys)
  from apply_move_wf [OF assms(1) this assms(3-6)] show ?thesis
    by (simp add: Let_def)
qed

lemma make_move_not_applied:
  assumes "wf_board (board g)" "fst (make_move g a b) \<noteq> Returned True"
  shows "snd (make_move g a b) = g"
  using make_move_cases [of g a b] assms apply_move_returns [OF assms(1)]
  by (elim disjE exE conjE) simp_all

lemma make_move_applied:
  assumes "fst (make_move g a b) = Returned True"
  shows "\<exists>piece sr sc nr nc.
      game_state g = UNFINISHED \<and>
      convert_square_to_indices a = Inr (sr, sc) \<and>
      convert_square_to_indices b = Inr (nr, nc) \<and>
      0 \<le> nr \<and> nr < 8 \<and> 0 \<le> nc \<and> nc < 8 \<and>
      cell (board g) sr sc = Some piece \<and>
      \<not> ((islower piece \<and> current_turn g = W) \<or> (isupper piece \<and> current_turn g = B)) \<and>
      is_valid_move g piece sr sc nr nc = Inr (Some True) \<and>
      make_move g a b = apply_move g piece sr sc nr nc"
  using make_move_cases [of g a b] assms by (elim disjE exE) auto

lemma make_move_turn:
  "current_turn (snd (make_move g a b)) =
     (if fst (make_move g a b) = Returned True \<and> game_state (snd (make_move g a b)) = UNFINISHED
      then other (current_turn g) else current_turn g)"
proof (cases "fst (make_move g a b) = Returned True")
  case True
  from make_move_applied [OF this] obtain piece sr sc nr nc
    where "make_move g a b = apply_move g piece sr sc nr nc" by blast
  then show ?thesis
    using apply_move_turn [of g piece sr sc nr nc] by simp
next
  case False
  with make_move_cases [of g a b] show ?thesis
    by (elim disjE exE conjE) (simp_all add: apply_move_turn)
qed

subsection \<open>Turn alternation\<close>

lemma wf_new_game: "wf_board (board new_game)"
  by (simp add: wf_board_def new_game_def)

text \<open>
  Claim C8. After a move that was applied and leaves the outcome Unfinished, the turn is
  the opposite colour of the turn before: Black if it was White, White if it was Black.
  After an applied move that ends the game, and after every call that did not apply a
  move (a rejection or an exception), the turn is unchanged.
\<close>

theorem turn_alternation:
  "(fst (make_move g a b) = Returned True \<and> game_state (snd (make_move g a b)) = UNFINISHED \<longrightarrow>
      current_turn (snd (make_move g a b)) \<noteq> current_turn g \<and>
      (current_turn g = W \<longrightarrow> current_turn (snd (make_move g a b)) = B) \<and>
      (current_turn g = B \<longrightarrow> current_turn (snd (make_move g a b)) = W)) \<and>
   (fst (make_move g a b) = Returned True \<and> game_state (snd (make_move g a b)) \<noteq> UNFINISHED \<longrightarrow>
      current_turn (snd (make_move g a b)) = current_turn g) \<and>
   (fst (make_move g a b) \<noteq> Returned True \<longrightarrow>
      current_turn (snd (make_move g a b)) = current_turn g)"
  by (cases "current_turn g") (simp_all add: make_move_turn other_def)

theorem turn_alternation_witness:
  "current_turn new_game = W \<and>
   fst (make_move new_game (py_str ''e2'') (py_str ''e4'')) = Returned True \<and>
   game_state (snd (make_move new_game (py_str ''e2'') (py_str ''e4''))) = UNFINISHED \<and>
   current_turn (snd (make_move new_game (py_str ''e2'') (py_str ''e4''))) = B \<and>
   fst (make_move (snd (make_move new_game (py_str ''e2'') (py_str ''e4'')))
          (py_str ''e7'') (py_str ''e5'')) = Returned True \<and>
   game_state (snd (make_move (snd (make_move new_game (py_str ''e2'') (py_str ''e4'')))
          (py_str ''e7'') (py_str ''e5''))) = UNFINISHED \<and>
   current_turn (snd (make_move (snd (make_move new_game (py_str ''e2'') (py_str ''e4'')))
          (py_str ''e7'') (py_str ''e5''))) = W \<and>
   fst (make_move new_game (py_str ''b1'') (py_str ''d2'')) = Returned True \<and>
   game_state (snd (make_move new_game (py_str ''b1'') (py_str ''d2''))) = BLACK_WON \<and>
   current_turn (snd (make_move new_game (py_str ''b1'') (py_str ''d2''))) = W \<and>
   fst (make_move new_game (py_str ''e2'') (py_str ''e5'')) = Returned False \<and>
   current_turn (snd (make_move new_game (py_str ''e2'') (py_str ''e5''))) = W"
proof -
  let ?g1 = "snd (make_move new_game (py_str ''e2'') (py_str ''e4''))"
  have t: "current_turn new_game = W"
    by (simp add: new_game_def)
  have a: "fst (make_move new_game (py_str ''e2'') (py_str ''e4'')) = Returned True"
    "game_state ?g1 = UNFINISHED"
    by code_simp+
  have a2: "fst (make_move ?g1 (py_str ''e7'') (py_str ''e5'')) = Returned True"
    "game_state (snd (make_move ?g1 (py_str ''e7'') (py_str ''e5''))) = UNFINISHED"
    by code_simp+
  have b: "fst (make_move new_game (py_str ''b1'') (py_str ''d2'')) = Returned True"
    "game_state (snd (make_move new_game (py_str ''b1'') (py_str ''d2''))) = BLACK_WON"
    by code_simp+
  have c: "fst (make_move new_game (py_str ''e2'') (py_str ''e5'')) = Returned False"
    by code_simp
  have 1: "current_turn ?g1 = B"
    using turn_alternation [of new_game "py_str ''e2''" "py_str ''e4''"]
    by (simp add: a t)
  have 2: "current_turn (snd (make_move ?g1 (py_str ''e7'') (py_str ''e5''))) = W"
    using turn_alternation [of ?g1 "py_str ''e7''" "py_str ''e5''"]
    by (simp add: a2 1)
  have 3: "current_turn (snd (make_move new_game (py_str ''b1'') (py_str ''d2''))) = W"
    using turn_alternation [of new_game "py_str ''b1''" "py_str ''d2''"]
    by (simp add: b t)
  have 4: "current_turn (snd (make_move new_game (py_str ''e2'') (py_str ''e5''))) = W"
    using turn_alternation [of new_game "py_str ''e2''" "py_str ''e5''"]
    by (simp add: c t)
  from t a a2 b c 1 2 3 4 show ?thesis by simp
qed

subsection \<open>Atomicity of \<open>make_move\<close>\<close>

text \<open>
  Claim C7, as amended. On an 8 by 8 board, for every pair of input strings, a call of
  \<open>make_move\<close> either returns True with the move fully applied (every step of the
  executor has run), or it returns False, or it raises \<open>ValueError\<close> or \<open>IndexError\<close>;
  whenever it does not return True, the board, the turn and the outcome are exactly as
  before the call.
\<close>

theorem make_move_atomic:
  assumes "wf_board (board g)"
  shows "(fst (make_move g a b) = Returned True \<and>
          (\<exists>piece sr sc nr nc.
             convert_square_to_indices a = Inr (sr, sc) \<and>
             convert_square_to_indices b = Inr (nr, nc) \<and>
             cell (board g) sr sc = Some piece \<and>
             is_valid_move g piece sr sc nr nc = Inr (Some True) \<and>
             make_move g a b = apply_move g piece sr sc nr nc)) \<or>
         ((fst (make_move g a b) = Returned False \<or> (\<exists>e. fst (make_move g a b) = Raised e)) \<and>
          snd (make_move g a b) = g)"
proof (cases "fst (make_move g a b) = Returned True")
  case True
  from make_move_applied [OF this] True show ?thesis by blast
next
  case False
  then have "fst (make_move g a b) = Returned False \<or> (\<exists>e. fst (make_move g a b) = Raised e)"
    by (cases "fst (make_move g a b)") auto
  with make_move_not_applied [OF assms False] show ?thesis by blast
qed

theorem make_move_atomic_witness:
  "wf_board (board new_game) \<and>
   fst (make_move new_game (py_str ''e2'') (py_str ''e5'')) = Returned False \<and>
   snd (make_move new_game (py_str ''e2'') (py_str ''e5'')) = new_game \<and>
   fst (make_move new_game (py_str ''e2'') (py_str ''e'')) = Raised ValueError \<and>
   snd (make_move new_game (py_str ''e2'') (py_str ''e'')) = new_game"
proof -
  have a: "fst (make_move new_game (py_str ''e2'') (py_str ''e5'')) = Returned False"
    and b: "fst (make_move new_game (py_str ''e2'') (py_str ''e'')) = Raised ValueError"
    by code_simp+
  show ?thesis
    using make_move_atomic [OF wf_new_game, of "py_str ''e2''" "py_str ''e5''"]
      make_move_atomic [OF wf_new_game, of "py_str ''e2''" "py_str ''e''"]
    by (simp add: a b wf_new_game)
qed

text \<open>
  Claim C7 as stated says that every call returns True or returns False. A destination
  string of one character makes the call raise instead.
\<close>

theorem make_move_raises:
  "game_state new_game = UNFINISHED \<and>
   make_move new_game (py_str ''e2'') (py_str ''e'') = (Raised ValueError, new_game)"
  by code_simp

subsection \<open>The frame of a move to an empty square\<close>

lemma is_valid_move_blank: "is_valid_move g (CHR '' '') sr sc nr nc = Inr None"
  by (simp add: is_valid_move_def lower_blank)

text \<open>
  Claim C10. When a move is applied and its destination square was empty before, the
  new state is the old one with exactly two cells written and the turn passed on: the
  destination now holds the moved piece, the origin (a different square, which held a
  piece) is now empty, every other cell is unchanged, the outcome is still Unfinished and
  the explosion has not run.
\<close>

theorem quiet_move_frame:
  assumes wf: "wf_board (board g)"
    and a: "convert_square_to_indices a = Inr (sr, sc)"
    and b: "convert_square_to_indices b = Inr (nr, nc)"
    and empty: "cell (board g) nr nc = Some (CHR '' '')"
    and applied: "fst (make_move g a b) = Returned True"
  shows "\<exists>i j piece.
           norm_index 8 sr = Some i \<and> norm_index 8 sc = Some j \<and>
           0 \<le> nr \<and> nr < 8 \<and> 0 \<le> nc \<and> nc < 8 \<and>
           board g ! i ! j = piece \<and> piece \<noteq> CHR '' '' \<and>
           board g ! nat nr ! nat nc = CHR '' '' \<and> (i, j) \<noteq> (nat nr, nat nc) \<and>
           snd (make_move g a b) =
             g\<lparr>board := ((board g)[nat nr := (board g ! nat nr)[nat nc := piece]])
                          [i := ((board g)[nat nr := (board g ! nat nr)[nat nc := piece]] ! i)
                                  [j := CHR '' '']],
               current_turn := other (current_turn g)\<rparr> \<and>
           wf_board (board (snd (make_move g a b))) \<and>
           (\<forall>r<8. \<forall>c<8.
              board (snd (make_move g a b)) ! r ! c =
                (if (r, c) = (nat nr, nat nc) then piece
                 else if (r, c) = (i, j) then CHR '' ''
                 else board g ! r ! c)) \<and>
           game_state g = UNFINISHED \<and>
           game_state (snd (make_move g a b)) = UNFINISHED \<and>
           current_turn (snd (make_move g a b)) = other (current_turn g)"
proof -
  from make_move_applied [OF applied] a b obtain piece where
    st: "game_state g = UNFINISHED" and
    dst: "0 \<le> nr" "nr < 8" "0 \<le> nc" "nc < 8" and
    src: "cell (board g) sr sc = Some piece" and
    valid: "is_valid_move g piece sr sc nr nc = Inr (Some True)" and
    mm: "make_move g a b = apply_move g piece sr sc nr nc"
    by auto
  from wf src obtain i j where
    ij: "norm_index 8 sr = Some i" "norm_index 8 sc = Some j" and p: "piece = board g ! i ! j"
    by (auto simp: wf_cell_phys)
  have lt: "i < 8" "j < 8"
    using ij by (auto dest: norm_index_less)
  have nb: "piece \<noteq> CHR '' ''"
    using valid is_valid_move_blank [of g sr sc nr nc] by auto
  have e: "board g ! nat nr ! nat nc = CHR '' ''"
    using wf dst empty by (simp add: wf_cell)
  have ne: "(i, j) \<noteq> (nat nr, nat nc)"
    using nb e p by auto
  define b1 where "b1 = (board g)[nat nr := (board g ! nat nr)[nat nc := piece]]"
  define b2 where "b2 = b1[i := (b1 ! i)[j := CHR '' '']]"
  have wf1: "wf_board b1"
    unfolding b1_def using wf by (rule wf_board_update)
  have wf2: "wf_board b2"
    unfolding b2_def using wf1 by (rule wf_board_update)
  have res: "snd (make_move g a b) = g\<lparr>board := b2, current_turn := other (current_turn g)\<rparr>"
    unfolding mm apply_move_wf [OF wf ij dst]
    by (simp add: Let_def e advance_def st b1_def b2_def)
  have cells: "b2 ! r ! c =
      (if (r, c) = (nat nr, nat nc) then piece
       else if (r, c) = (i, j) then CHR '' '' else board g ! r ! c)"
    if "r < 8" "c < 8" for r c
  proof -
    have "b2 ! r ! c = (if r = i \<and> c = j then CHR '' '' else b1 ! r ! c)"
      unfolding b2_def using wf1 lt that by (rule nth_board_update)
    moreover have "b1 ! r ! c = (if r = nat nr \<and> c = nat nc then piece else board g ! r ! c)"
      unfolding b1_def using wf dst that by (intro nth_board_update) auto
    ultimately show ?thesis using ne by auto
  qed
  show ?thesis
    apply (rule exI [of _ i], rule exI [of _ j], rule exI [of _ piece])
    using ij dst p nb e ne res wf2 cells st
    by (simp add: b1_def b2_def)
qed

theorem quiet_move_frame_witness:
  "wf_board (board new_game) \<and>
   convert_square_to_indices (py_str ''e2'') = Inr (6, 4) \<and>
   convert_square_to_indices (py_str ''e4'') = Inr (4, 4) \<and>
   cell (board new_game) 4 4 = Some (CHR '' '') \<and>
   fst (make_move new_game (py_str ''e2'') (py_str ''e4'')) = Returned True \<and>
   snd (make_move new_game (py_str ''e2'') (py_str ''e4'')) =
     \<lparr> board =
         [''rnbqkbnr'',
          ''pppppppp'',
          ''        '',
          ''        '',
          ''    P   '',
          ''        '',
          ''PPPP PPP'',
          ''RNBQKBNR''],
       current_turn = B,
       game_state = UNFINISHED \<rparr>"
proof -
  have h: "convert_square_to_indices (py_str ''e2'') = Inr (6, 4)"
    "convert_square_to_indices (py_str ''e4'') = Inr (4, 4)"
    "cell (board new_game) 4 4 = Some (CHR '' '')"
    "fst (make_move new_game (py_str ''e2'') (py_str ''e4'')) = Returned True"
    by code_simp+
  have n: "norm_index 8 6 = Some 6" "norm_index 8 4 = Some 4"
    by (simp_all add: norm_index_def)
  from quiet_move_frame [OF wf_new_game h] obtain i j piece where
    "norm_index 8 6 = Some i" "norm_index 8 4 = Some j" "board new_game ! i ! j = piece"
    and r: "snd (make_move new_game (py_str ''e2'') (py_str ''e4'')) =
             new_game\<lparr>board := ((board new_game)[nat 4 := (board new_game ! nat 4)[nat 4 := piece]])
                          [i := ((board new_game)[nat 4 := (board new_game ! nat 4)[nat 4 := piece]] ! i)
                                  [j := CHR '' '']],
               current_turn := other (current_turn new_game)\<rparr>"
    by blast
  with n have "i = 6" "j = 4" "piece = board new_game ! 6 ! 4" by simp_all
  with r have "snd (make_move new_game (py_str ''e2'') (py_str ''e4'')) =
     \<lparr> board =
         [''rnbqkbnr'',
          ''pppppppp'',
          ''        '',
          ''        '',
          ''    P   '',
          ''        '',
          ''PPPP PPP'',
          ''RNBQKBNR''],
       current_turn = B,
       game_state = UNFINISHED \<rparr>"
    by (simp add: new_game_def other_def)
  with wf_new_game h show ?thesis by simp
qed

subsection \<open>The effect of the explosion\<close>

lemma member_kings: "x \<in> {CHR ''k'', CHR ''K''} \<longleftrightarrow> lower x = CHR ''k''"
  by (auto simp: lower_eq_k)

lemma member_pawns: "x \<notin> {CHR ''p'', CHR ''P''} \<longleftrightarrow> lower x \<noteq> CHR ''p''"
  by (auto simp: lower_eq_p)

text \<open>
  Claim C6. On an 8 by 8 board and for a centre \<open>(r, c)\<close> on the board, the explosion
  raises nothing, keeps the turn, and changes the board exactly so: each cell of the
  clipped 3 by 3 neighbourhood that holds anything but a pawn becomes empty, each pawn in
  it and each cell outside it is untouched. Each king removed sets the outcome to a win
  for the colour opposite to that king's, so the outcome afterwards is the one before if
  no king stood in the neighbourhood, and else the win set by the king visited last.
\<close>

theorem explosion_effect:
  assumes wf: "wf_board (board g)" and rc: "0 \<le> r" "r < 8" "0 \<le> c" "c < 8"
  shows "fst (explosion g r c) = None \<and>
         wf_board (board (snd (explosion g r c))) \<and>
         current_turn (snd (explosion g r c)) = current_turn g \<and>
         (\<forall>i<8. \<forall>j<8.
            board (snd (explosion g r c)) ! i ! j =
              (if in_blast r c (int i) (int j) \<and> board g ! i ! j \<notin> {CHR ''p'', CHR ''P''}
               then CHR '' '' else board g ! i ! j)) \<and>
         game_state (snd (explosion g r c)) =
           (let ks = filter (\<lambda>x. x \<in> {CHR ''k'', CHR ''K''})
                       (map (\<lambda>ij. board g ! nat (fst ij) ! nat (snd ij)) (blast_squares r c))
            in if ks = [] then game_state g
               else if last ks = CHR ''K'' then BLACK_WON else WHITE_WON) \<and>
         (\<forall>i j x. cell (board g) i j = Some x \<and> x \<in> {CHR ''k'', CHR ''K''} \<longrightarrow>
            game_state (snd (explode_cell g (i, j))) =
              (if x = CHR ''K'' then BLACK_WON else WHITE_WON))"
proof -
  have ob: "on_board (blast_squares r c)"
    unfolding on_board_def using blast_squares_in_range by blast
  have 1: "fst (explosion g r c) = None" "wf_board (board (snd (explosion g r c)))"
    using wf rc by (rule explosion_ok)+
  have 2: "current_turn (snd (explosion g r c)) = current_turn g"
    by (rule explosion_turn)
  have 3: "board (snd (explosion g r c)) ! i ! j =
              (if in_blast r c (int i) (int j) \<and> board g ! i ! j \<notin> {CHR ''p'', CHR ''P''}
               then CHR '' '' else board g ! i ! j)" if "i < 8" "j < 8" for i j
    unfolding explosion_def member_pawns
    using explode_cells_board [OF wf ob that] by (simp add: set_blast_squares)
  have 4: "game_state (snd (explosion g r c)) =
           (let ks = filter (\<lambda>x. x \<in> {CHR ''k'', CHR ''K''})
                       (map (\<lambda>ij. board g ! nat (fst ij) ! nat (snd ij)) (blast_squares r c))
            in if ks = [] then game_state g
               else if last ks = CHR ''K'' then BLACK_WON else WHITE_WON)"
    unfolding explosion_def member_kings
    using explode_cells_outcome [OF wf ob distinct_blast_squares]
    by (simp add: kings_outcome_def)
  have 5: "game_state (snd (explode_cell g (i, j))) =
              (if x = CHR ''K'' then BLACK_WON else WHITE_WON)"
    if "cell (board g) i j = Some x \<and> x \<in> {CHR ''k'', CHR ''K''}" for i j x
  proof -
    from that have "cell (board g) i j = Some x" "lower x = CHR ''k''"
      by (auto simp: lower_eq_k)
    then show ?thesis by (rule explode_cell_king)
  qed
  from 1 2 3 4 5 show ?thesis by blast
qed

theorem explosion_effect_witness:
  "wf_board (board new_game) \<and>
   fst (explosion new_game 7 4) = None \<and>
   in_blast 7 4 7 3 \<and> board new_game ! 7 ! 3 = CHR ''Q'' \<and>
   board (snd (explosion new_game 7 4)) ! 7 ! 3 = CHR '' '' \<and>
   in_blast 7 4 6 3 \<and> board new_game ! 6 ! 3 = CHR ''P'' \<and>
   board (snd (explosion new_game 7 4)) ! 6 ! 3 = CHR ''P'' \<and>
   \<not> in_blast 7 4 7 2 \<and> board new_game ! 7 ! 2 = CHR ''B'' \<and>
   board (snd (explosion new_game 7 4)) ! 7 ! 2 = CHR ''B'' \<and>
   cell (board new_game) 7 4 = Some (CHR ''K'') \<and>
   game_state (snd (explode_cell new_game (7, 4))) = BLACK_WON \<and>
   game_state (snd (explosion new_game 7 4)) = BLACK_WON"
proof -
  note e = explosion_effect [OF wf_new_game, of 7 4, simplified]
  have b: "board new_game ! 7 ! 3 = CHR ''Q''" "board new_game ! 6 ! 3 = CHR ''P''"
    "board new_game ! 7 ! 2 = CHR ''B''"
    by (simp_all add: new_game_def)
  have i: "in_blast 7 4 7 3" "in_blast 7 4 6 3" "\<not> in_blast 7 4 7 2"
    by (simp_all add: in_blast_def)
  have k: "cell (board new_game) 7 4 = Some (CHR ''K'')"
    by code_simp
  have ks: "filter (\<lambda>x. x = CHR ''k'' \<or> x = CHR ''K'')
              (map (\<lambda>ij. board new_game ! nat (fst ij) ! nat (snd ij)) (blast_squares 7 4)) =
            [CHR ''K'']"
    by code_simp
  from e have c1: "board (snd (explosion new_game 7 4)) ! 7 ! 3 = CHR '' ''"
    using b i by (auto dest!: spec [of _ 7] spec [of _ 3])
  from e have c2: "board (snd (explosion new_game 7 4)) ! 6 ! 3 = CHR ''P''"
    using b i by (auto dest!: spec [of _ 6] spec [of _ 3])
  from e have c3: "board (snd (explosion new_game 7 4)) ! 7 ! 2 = CHR ''B''"
    using b i by (auto dest!: spec [of _ 7] spec [of _ 2])
  from e have "\<forall>i j x. cell (board new_game) i j = Some x \<and> (x = CHR ''k'' \<or> x = CHR ''K'') \<longrightarrow>
      game_state (snd (explode_cell new_game (i, j))) =
        (if x = CHR ''K'' then BLACK_WON else WHITE_WON)"
    by simp
  from this [rule_format, of 7 4 "CHR ''K''"] k
  have c4: "game_state (snd (explode_cell new_game (7, 4))) = BLACK_WON"
    by simp
  from e have c5: "game_state (snd (explosion new_game 7 4)) = BLACK_WON"
    by (simp add: ks Let_def)
  from e have c0: "fst (explosion new_game 7 4) = None" by simp
  from wf_new_game c0 b i c1 c2 c3 k c4 c5 show ?thesis by simp
qed

subsection \<open>Malformed and off-board input\<close>

lemma decimal_blocks_runs: "decimal_blocks = map (\<lambda>s. (s, s + 9)) decimal_runs"
  by (simp add: decimal_blocks_def decimal_runs_def)

lemma decimal_runs_apart: "sorted_wrt (\<lambda>s t. s + 10 \<le> t) decimal_runs"
  unfolding decimal_runs_def by code_simp

lemma decimal_runs_unique:
  assumes "s \<in> set decimal_runs" "t \<in> set decimal_runs" "s \<le> c" "c < s + 10" "t \<le> c" "c < t + 10"
  shows "s = t"
proof (rule ccontr)
  assume ne: "s \<noteq> t"
  from assms(1,2) obtain i j where
    ij: "i < length decimal_runs" "j < length decimal_runs"
      "decimal_runs ! i = s" "decimal_runs ! j = t"
    by (auto simp: in_set_conv_nth)
  with ne have "i < j \<or> j < i" by (cases i j rule: linorder_cases) auto
  then have "s + 10 \<le> t \<or> t + 10 \<le> s"
    using decimal_runs_apart ij by (auto simp: sorted_wrt_iff_nth_less)
  with assms(3-6) show False by arith
qed

lemma decimal_digit_iff:
  "decimal_digit c \<longleftrightarrow> (\<exists>s \<in> set decimal_runs. s \<le> c \<and> c < s + 10)"
  by (auto simp: decimal_digit_def decimal_blocks_runs list_ex_iff)

lemma rank_digit_iff:
  "rank_digit c \<longleftrightarrow> (\<exists>s \<in> set decimal_runs. s < c \<and> c < s + 9)"
  by (auto simp: rank_digit_def decimal_blocks_runs list_ex_iff)

lemma py_int_None: "py_int c = None \<longleftrightarrow> \<not> decimal_digit c"
proof -
  have "py_int c = None \<longleftrightarrow> find (\<lambda>s. s \<le> c \<and> c < s + 10) decimal_runs = None"
    by (simp add: py_int_def split: option.splits)
  then show ?thesis
    by (auto simp: decimal_digit_iff find_None_iff)
qed

lemma py_int_Some:
  assumes "py_int c = Some d"
  shows "0 \<le> d \<and> d \<le> 9 \<and> (1 \<le> d \<and> d \<le> 8 \<longleftrightarrow> rank_digit c)"
proof -
  from assms obtain s where
    f: "find (\<lambda>s. s \<le> c \<and> c < s + 10) decimal_runs = Some s" and d: "d = c - s"
    by (auto simp: py_int_def split: option.splits)
  from f have s: "s \<in> set decimal_runs" "s \<le> c" "c < s + 10"
    by (auto simp: find_Some_iff)
  have "rank_digit c \<longleftrightarrow> s < c \<and> c < s + 9"
  proof
    assume "rank_digit c"
    then obtain t where t: "t \<in> set decimal_runs" "t < c" "c < t + 9"
      by (auto simp: rank_digit_iff)
    with s have "s = t"
      by (intro decimal_runs_unique [of s t c]) auto
    with t show "s < c \<and> c < s + 9" by simp
  next
    assume "s < c \<and> c < s + 9"
    with s(1) show "rank_digit c"
      by (auto simp: rank_digit_iff)
  qed
  with s d show ?thesis by auto
qed

lemma convert_not_parses: "\<not> parses s \<Longrightarrow> convert_square_to_indices s = Inl ValueError"
  by (auto simp: parses_def convert_square_to_indices_def py_int_None [symmetric]
           split: list.splits option.splits)

lemma convert_parses:
  assumes "parses s"
  shows "\<exists>column row d. s = [column, row] \<and> py_int row = Some d \<and>
           convert_square_to_indices s = Inr (8 - d, column - 97)"
proof -
  from assms obtain column row where s: "s = [column, row]" and "decimal_digit row"
    by (auto simp: parses_def split: list.splits)
  then obtain d where "py_int row = Some d"
    using py_int_None [of row] by (cases "py_int row") auto
  with s show ?thesis
    by (simp add: convert_square_to_indices_def)
qed

lemma names_square_iff:
  "names_square s \<longleftrightarrow>
     (\<exists>r c. convert_square_to_indices s = Inr (r, c) \<and> 0 \<le> r \<and> r < 8 \<and> 0 \<le> c \<and> c < 8)"
proof (cases "parses s")
  case True
  from convert_parses [OF this] obtain column row d where
    s: "s = [column, row]" and d: "py_int row = Some d" and
    c: "convert_square_to_indices s = Inr (8 - d, column - 97)"
    by blast
  from py_int_Some [OF d] have "rank_digit row \<longleftrightarrow> 1 \<le> d \<and> d \<le> 8" by simp
  then show ?thesis
    unfolding c by (auto simp: names_square_def s)
next
  case False
  then have "\<not> names_square s"
    using rank_digit_iff decimal_digit_iff
    by (fastforce simp: parses_def names_square_def split: list.splits)
  with False show ?thesis
    by (simp add: convert_not_parses)
qed

lemma make_move_value_error:
  assumes "game_state g = UNFINISHED" "\<not> parses a \<or> \<not> parses b"
  shows "make_move g a b = (Raised ValueError, g)"
proof (cases "parses a")
  case False
  then show ?thesis
    using assms(1) by (simp add: make_move_def convert_not_parses)
next
  case True
  with assms(2) have "\<not> parses b" by simp
  moreover from convert_parses [OF True] obtain r c where
    "convert_square_to_indices a = Inr (r, c)" by blast
  ultimately show ?thesis
    using assms(1) by (simp add: make_move_def convert_not_parses)
qed

lemma make_move_off_board:
  assumes "game_state g = UNFINISHED" "parses a" "parses b" "\<not> names_square b"
  shows "make_move g a b = (Returned False, g)"
proof -
  from convert_parses [OF assms(2)] obtain r0 c0 where
    a: "convert_square_to_indices a = Inr (r0, c0)" by blast
  from convert_parses [OF assms(3)] obtain r c where
    b: "convert_square_to_indices b = Inr (r, c)" by blast
  with assms(4) have "\<not> (0 \<le> r \<and> r < 8 \<and> 0 \<le> c \<and> c < 8)"
    by (auto simp: names_square_iff)
  then show ?thesis
    using assms(1) a b by (simp add: make_move_def)
qed

text \<open>
  Claim C3, as amended. A call of \<open>make_move\<close> always ends. When the game is over it
  returns False for every pair of strings. While the game is going: if either string is
  not two characters of which the second is a decimal digit (of any script, as \<open>int\<close>
  accepts them), the call raises \<open>ValueError\<close>; if both strings have this form and the
  destination is not a square of the board (its file is not \<open>'a'\<close> to \<open>'h'\<close>, or its rank
  digit has the value 0 or 9), the call returns False. In each of these cases the board,
  the turn and the outcome are unchanged.
\<close>

theorem bad_input_is_rejected_or_raises:
  "(game_state g \<noteq> UNFINISHED \<longrightarrow> make_move g a b = (Returned False, g)) \<and>
   (game_state g = UNFINISHED \<and> (\<not> parses a \<or> \<not> parses b) \<longrightarrow>
      make_move g a b = (Raised ValueError, g)) \<and>
   (game_state g = UNFINISHED \<and> parses a \<and> parses b \<and> \<not> names_square b \<longrightarrow>
      make_move g a b = (Returned False, g))"
  using make_move_finished [of g a b] make_move_value_error [of g a b]
    make_move_off_board [of g a b]
  by blast

theorem bad_input_witness:
  "game_state (snd (make_move new_game (py_str ''b1'') (py_str ''d2''))) = BLACK_WON \<and>
   make_move (snd (make_move new_game (py_str ''b1'') (py_str ''d2'')))
     (py_str ''e7'') (py_str ''e5x'') =
     (Returned False, snd (make_move new_game (py_str ''b1'') (py_str ''d2''))) \<and>
   game_state new_game = UNFINISHED \<and>
   \<not> parses (py_str ''e2e4'') \<and>
   make_move new_game (py_str ''e2e4'') [] = (Raised ValueError, new_game) \<and>
   parses (py_str ''e2'') \<and> \<not> parses (py_str ''ee'') \<and>
   make_move new_game (py_str ''e2'') (py_str ''ee'') = (Raised ValueError, new_game) \<and>
   parses (py_str ''e9'') \<and> \<not> names_square (py_str ''e9'') \<and>
   make_move new_game (py_str ''e2'') (py_str ''e9'') = (Returned False, new_game) \<and>
   parses (py_str ''i4'') \<and> \<not> names_square (py_str ''i4'') \<and>
   make_move new_game (py_str ''e2'') (py_str ''i4'') = (Returned False, new_game) \<and>
   parses [101, 1632] \<and> \<not> names_square [101, 1632] \<and>
   make_move new_game (py_str ''e2'') [101, 1632] = (Returned False, new_game)"
proof -
  have won: "game_state (snd (make_move new_game (py_str ''b1'') (py_str ''d2''))) = BLACK_WON"
    by code_simp
  have st: "game_state new_game = UNFINISHED"
    by (simp add: new_game_def)
  have p: "\<not> parses (py_str ''e2e4'')" "parses (py_str ''e2'')" "\<not> parses (py_str ''ee'')"
    "parses (py_str ''e9'')" "parses (py_str ''i4'')" "parses [101, 1632]"
    "\<not> names_square (py_str ''e9'')" "\<not> names_square (py_str ''i4'')"
    "\<not> names_square [101, 1632]"
    by code_simp+
  show ?thesis
    using bad_input_is_rejected_or_raises
            [of "snd (make_move new_game (py_str ''b1'') (py_str ''d2''))"
               "py_str ''e7''" "py_str ''e5x''"]
      bad_input_is_rejected_or_raises [of new_game "py_str ''e2e4''" "[]"]
      bad_input_is_rejected_or_raises [of new_game "py_str ''e2''" "py_str ''ee''"]
      bad_input_is_rejected_or_raises [of new_game "py_str ''e2''" "py_str ''e9''"]
      bad_input_is_rejected_or_raises [of new_game "py_str ''e2''" "py_str ''i4''"]
      bad_input_is_rejected_or_raises [of new_game "py_str ''e2''" "[101, 1632]"]
    by (simp add: won st p)
qed

text \<open>
  Claim C3 as stated says that no pair of strings makes \<open>make_move\<close> raise. A string of
  the wrong length raises \<open>ValueError\<close>.
\<close>

theorem make_move_raises_on_bad_strings:
  "game_state new_game = UNFINISHED \<and>
   make_move new_game (py_str ''e2e4'') [] = (Raised ValueError, new_game)"
  by code_simp

text \<open>
  A rank digit of another script is read like an ASCII digit: with the Arabic-Indic digit
  four (code point 1636) after \<open>'e'\<close> (101) the destination is e4, and the pawn move from
  e2 is applied.
\<close>

lemma digit_of_another_script:
  "names_square [101, 1636] \<and>
   convert_square_to_indices [101, 1636] = convert_square_to_indices (py_str ''e4'') \<and>
   make_move new_game (py_str ''e2'') [101, 1636] =
     make_move new_game (py_str ''e2'') (py_str ''e4'') \<and>
   fst (make_move new_game (py_str ''e2'') [101, 1636]) = Returned True"
  by code_simp

subsection \<open>Legality and the turn\<close>

lemma legality_without_turn:
  "is_valid_move (g\<lparr>game_state := s\<rparr>) piece sr sc nr nc = is_valid_move g piece sr sc nr nc"
  "lower piece \<noteq> CHR ''p'' \<Longrightarrow>
     is_valid_move (g\<lparr>current_turn := t\<rparr>) piece sr sc nr nc =
       is_valid_move g piece sr sc nr nc"
  by (simp_all add: is_valid_move_def)

text \<open>
  Inside \<open>make_move\<close> the legality test is reached only by a piece that passes the
  ownership test, and there a pawn judged legal moves in the direction of its own
  colour: a white pawn to a lower row, a black pawn to a higher row.
\<close>

lemma pawn_direction_behind_ownership_test:
  assumes "lower piece = CHR ''p''"
    and "\<not> ((islower piece \<and> current_turn g = W) \<or> (isupper piece \<and> current_turn g = B))"
    and "is_valid_move g piece sr sc nr nc = Inr (Some True)"
  shows "(piece = CHR ''P'' \<longrightarrow> current_turn g = W \<and> nr < sr) \<and>
         (piece = CHR ''p'' \<longrightarrow> current_turn g = B \<and> sr < nr)"
proof -
  from assms(1) consider "piece = CHR ''p''" | "piece = CHR ''P''"
    by (auto simp: lower_eq_p)
  then have t: "current_turn g = (if piece = CHR ''P'' then W else B)"
  proof cases
    case 1
    with assms(2) have "current_turn g \<noteq> W" by (simp add: islower_def)
    with 1 show ?thesis by (cases "current_turn g") simp_all
  next
    case 2
    with assms(2) have "current_turn g \<noteq> B" by (simp add: isupper_def)
    with 2 show ?thesis by (cases "current_turn g") simp_all
  qed
  from assms(1,3) have
    "pawn_move (board g) (current_turn g) piece sr sc nr nc = Inr True"
    by (auto simp: is_valid_move_def returned_def split: sum.splits)
  then have "(current_turn g = W \<longrightarrow> nr < sr) \<and> (current_turn g = B \<longrightarrow> sr < nr)"
    by (auto simp: pawn_move_def split: if_splits option.splits)
  with t show ?thesis by auto
qed


subsection \<open>Counting kings\<close>

lemma count_list_update:
  "j < length xs \<Longrightarrow>
     count_list (xs[j := v]) c + (if xs ! j = c then 1 else 0) =
     count_list xs c + (if v = c then 1 else 0)"
proof (induction xs arbitrary: j)
  case Nil
  then show ?case by simp
next
  case (Cons x xs)
  show ?case
  proof (cases j)
    case 0
    then show ?thesis by simp
  next
    case (Suc j')
    with Cons.prems have "j' < length xs" by simp
    from Cons.IH [OF this] Suc show ?thesis by (auto split: if_splits)
  qed
qed

lemma kings_update:
  "i < length b \<Longrightarrow> j < length (b ! i) \<Longrightarrow>
     kings c (b[i := (b ! i)[j := v]]) + (if b ! i ! j = c then 1 else 0) =
     kings c b + (if v = c then 1 else 0)"
proof (induction b arbitrary: i)
  case Nil
  then show ?case by simp
next
  case (Cons r rs)
  show ?case
  proof (cases i)
    case 0
    with Cons.prems have "j < length r" by simp
    from count_list_update [OF this, of v c] 0 show ?thesis
      by (simp add: kings_def)
  next
    case (Suc i')
    with Cons.prems have "i' < length rs" "j < length (rs ! i')" by simp_all
    from Cons.IH [OF this] Suc show ?thesis
      by (simp add: kings_def)
  qed
qed

lemma kings_update_wf:
  "wf_board b \<Longrightarrow> i < 8 \<Longrightarrow> j < 8 \<Longrightarrow>
     kings c (b[i := (b ! i)[j := v]]) + (if b ! i ! j = c then 1 else 0) =
     kings c b + (if v = c then 1 else 0)"
  by (rule kings_update) (simp_all add: wf_board_length wf_board_row)

lemma kings_moved:
  assumes wf: "wf_board b" and lt: "i < 8" "j < 8" "n < 8" "m < 8"
    and c: "c \<noteq> CHR '' ''"
  shows "kings c ((b[n := (b ! n)[m := b ! i ! j]])
                    [i := (b[n := (b ! n)[m := b ! i ! j]] ! i)[j := CHR '' '']]) +
           (if b ! n ! m = c then 1 else 0) =
         kings c b"
proof -
  define b1 where "b1 = b[n := (b ! n)[m := b ! i ! j]]"
  have wf1: "wf_board b1"
    unfolding b1_def using wf by (rule wf_board_update)
  have at: "b1 ! i ! j = b ! i ! j"
    unfolding b1_def using wf lt by (simp add: nth_board_update)
  have 1: "kings c b1 + (if b ! n ! m = c then 1 else 0) =
           kings c b + (if b ! i ! j = c then 1 else 0)"
    unfolding b1_def using wf lt(3,4) by (rule kings_update_wf)
  have 2: "kings c (b1[i := (b1 ! i)[j := CHR '' '']]) + (if b ! i ! j = c then 1 else 0) =
           kings c b1"
    using kings_update_wf [OF wf1 lt(1,2), of c "CHR '' ''"] c by (simp add: at)
  from 1 2 show ?thesis
    unfolding b1_def by simp
qed

lemma kings_blasted:
  assumes "wf_board (board g)" "i < 8" "j < 8" "c = CHR ''K'' \<or> c = CHR ''k''"
  shows "kings c (board (blasted g i j)) + (if board g ! i ! j = c then 1 else 0) =
         kings c (board g)"
proof (cases "lower (board g ! i ! j) = CHR ''p''")
  case True
  then have "board g ! i ! j \<noteq> c"
    using assms(4) by (auto simp: lower_eq_p)
  with True show ?thesis
    by (simp add: blasted_def)
next
  case False
  have "c \<noteq> CHR '' ''" using assms(4) by auto
  with kings_update_wf [OF assms(1-3), of c "CHR '' ''"] False show ?thesis
    by (simp add: blasted_def Let_def)
qed

lemma kings_explode_cells:
  assumes "c = CHR ''K'' \<or> c = CHR ''k''"
  shows "wf_board (board g) \<Longrightarrow> on_board sqs \<Longrightarrow>
     kings c (board (snd (explode_cells g sqs))) \<le> kings c (board g) \<and>
     (game_state (snd (explode_cells g sqs)) = UNFINISHED \<longrightarrow>
        kings c (board (snd (explode_cells g sqs))) = kings c (board g))"
proof (induction sqs arbitrary: g)
  case Nil
  then show ?case by simp
next
  case (Cons ij sqs)
  obtain i j where ij: "ij = (i, j)" by (cases ij)
  let ?g1 = "blasted g (nat i) (nat j)"
  from Cons.prems have step: "explode_cells g (ij # sqs) = explode_cells ?g1 sqs"
    unfolding ij by (rule explode_cells_Cons_wf)
  from Cons.prems have rest: "on_board sqs" and rng: "0 \<le> i" "i < 8" "0 \<le> j" "j < 8"
    by (simp_all add: ij on_board_Cons)
  have wf1: "wf_board (board ?g1)"
    using Cons.prems(1) by (rule wf_blasted)
  have k1: "kings c (board ?g1) + (if board g ! nat i ! nat j = c then 1 else 0) =
            kings c (board g)"
    using Cons.prems(1) rng assms by (intro kings_blasted) auto
  note ih = Cons.IH [OF wf1 rest]
  have le: "kings c (board (snd (explode_cells ?g1 sqs))) \<le> kings c (board g)"
    using ih k1 by (simp split: if_splits)
  have eq: "kings c (board (snd (explode_cells ?g1 sqs))) = kings c (board g)"
    if u: "game_state (snd (explode_cells ?g1 sqs)) = UNFINISHED"
  proof -
    have "game_state ?g1 = UNFINISHED"
      using explode_cells_state [of ?g1 sqs] u by blast
    then have "lower (board g ! nat i ! nat j) \<noteq> CHR ''k''"
      by (auto simp: state_blasted split: if_splits)
    then have "board g ! nat i ! nat j \<noteq> c"
      using assms by (auto simp: lower_eq_k)
    with k1 ih u show ?thesis by simp
  qed
  from le eq show ?case
    unfolding step by blast
qed

lemma board_advance: "board (advance h) = board h"
  by (simp add: advance_def)

lemma state_advance: "game_state (advance h) = game_state h"
  by (simp add: advance_def)

lemma kings_apply_move:
  assumes wf: "wf_board (board g)"
    and src: "cell (board g) sr sc = Some piece"
    and dst: "0 \<le> nr" "nr < 8" "0 \<le> nc" "nc < 8"
    and c: "c = CHR ''K'' \<or> c = CHR ''k''"
  shows "wf_board (board (snd (apply_move g piece sr sc nr nc))) \<and>
     kings c (board (snd (apply_move g piece sr sc nr nc))) \<le> kings c (board g) \<and>
     (game_state (snd (apply_move g piece sr sc nr nc)) = UNFINISHED \<longrightarrow>
        kings c (board (snd (apply_move g piece sr sc nr nc))) = kings c (board g))"
proof -
  from wf src obtain i j where
    ij: "norm_index 8 sr = Some i" "norm_index 8 sc = Some j" and p: "piece = board g ! i ! j"
    by (auto simp: wf_cell_phys)
  have lt: "i < 8" "j < 8" "nat nr < 8" "nat nc < 8"
    using ij dst by (auto dest: norm_index_less)
  define captured where "captured = board g ! nat nr ! nat nc"
  define b1 where "b1 = (board g)[nat nr := (board g ! nat nr)[nat nc := piece]]"
  define g2 where "g2 = g\<lparr>board := b1[i := (b1 ! i)[j := CHR '' '']]\<rparr>"
  define h where "h = marked g2 captured piece"
  have res: "snd (apply_move g piece sr sc nr nc) =
      advance (if captured \<noteq> CHR '' '' then snd (explosion h nr nc) else g2)"
    unfolding apply_move_wf [OF wf ij dst]
    by (simp add: Let_def captured_def b1_def g2_def h_def)
  have nb: "c \<noteq> CHR '' ''" using c by auto
  have k2: "kings c (board g2) + (if captured = c then 1 else 0) = kings c (board g)"
    using kings_moved [OF wf lt nb] by (simp add: g2_def b1_def p captured_def)
  have wf2: "wf_board (board g2)"
    unfolding g2_def b1_def using wf by (simp add: wf_board_update)
  show ?thesis
  proof (cases "captured = CHR '' ''")
    case True
    with res k2 wf2 nb show ?thesis
      by (auto simp: board_advance state_advance)
  next
    case False
    have bh: "board h = board g2"
      by (simp add: h_def marked_def)
    with wf2 have wfh: "wf_board (board h)" by simp
    have ob: "on_board (blast_squares nr nc)"
      unfolding on_board_def using blast_squares_in_range by blast
    note ke = kings_explode_cells [OF c wfh ob, folded explosion_def]
    have wfe: "wf_board (board (snd (explosion h nr nc)))"
      using wfh dst by (rule explosion_ok)
    have le: "kings c (board (snd (explosion h nr nc))) \<le> kings c (board g)"
      using ke k2 bh by (simp split: if_splits)
    have eq: "kings c (board (snd (explosion h nr nc))) = kings c (board g)"
      if u: "game_state (snd (explosion h nr nc)) = UNFINISHED"
    proof -
      have "game_state h = UNFINISHED"
        using explode_cells_state [of h "blast_squares nr nc"] u
        unfolding explosion_def by blast
      then have "lower captured \<noteq> CHR ''k''"
        by (auto simp: h_def marked_def split: if_splits)
      then have "captured \<noteq> c"
        using c by (auto simp: lower_eq_k)
      with ke k2 bh u show ?thesis by simp
    qed
    from False res wfe le eq show ?thesis
      by (simp add: board_advance state_advance)
  qed
qed

lemma kings_make_move:
  assumes wf: "wf_board (board g)" and c: "c = CHR ''K'' \<or> c = CHR ''k''"
  shows "wf_board (board (snd (make_move g a b))) \<and>
     kings c (board (snd (make_move g a b))) \<le> kings c (board g) \<and>
     (game_state (snd (make_move g a b)) = UNFINISHED \<longrightarrow>
        game_state g = UNFINISHED \<and>
        kings c (board (snd (make_move g a b))) = kings c (board g))"
proof (cases "fst (make_move g a b) = Returned True")
  case True
  from make_move_applied [OF this] obtain piece sr sc nr nc where
    "game_state g = UNFINISHED" "0 \<le> nr" "nr < 8" "0 \<le> nc" "nc < 8"
    "cell (board g) sr sc = Some piece"
    "make_move g a b = apply_move g piece sr sc nr nc"
    by blast
  with kings_apply_move [OF wf this(6,2,3,4,5) c] show ?thesis
    by simp
next
  case False
  from make_move_not_applied [OF wf False] wf show ?thesis
    by simp
qed

lemma king_inv_new_game: "king_inv new_game"
  by (simp add: king_inv_def wf_new_game) (simp add: new_game_def kings_def)

lemma king_inv_make_move:
  assumes "king_inv g"
  shows "king_inv (snd (make_move g a b))"
proof -
  from assms have wf: "wf_board (board g)" by (simp add: king_inv_def)
  note K = kings_make_move [OF wf, of "CHR ''K''" a b, simplified]
  note k = kings_make_move [OF wf, of "CHR ''k''" a b, simplified]
  from assms K k show ?thesis
    unfolding king_inv_def by auto
qed

lemma king_inv_play: "king_inv g \<Longrightarrow> king_inv (play g ms)"
  by (induction ms arbitrary: g) (simp_all add: king_inv_make_move)

text \<open>
  Claim C9. In every state that calls of \<open>make_move\<close> reach from the new game (whatever
  the strings passed, and whether a call applies a move, rejects it or raises): while the
  outcome is Unfinished the board holds exactly one white king and exactly one black
  king, and it never holds more than one of either; and whenever a further call removes
  a king from the board, by capture or by explosion, the outcome after that call is
  terminal, so that no later call changes the state any more.
\<close>

theorem one_king_each_while_unfinished:
  "(game_state (play new_game ms) = UNFINISHED \<longrightarrow>
      kings (CHR ''K'') (board (play new_game ms)) = 1 \<and>
      kings (CHR ''k'') (board (play new_game ms)) = 1) \<and>
   kings (CHR ''K'') (board (play new_game ms)) \<le> 1 \<and>
   kings (CHR ''k'') (board (play new_game ms)) \<le> 1 \<and>
   (kings (CHR ''K'') (board (snd (make_move (play new_game ms) a b))) <
      kings (CHR ''K'') (board (play new_game ms)) \<or>
    kings (CHR ''k'') (board (snd (make_move (play new_game ms) a b))) <
      kings (CHR ''k'') (board (play new_game ms)) \<longrightarrow>
      game_state (snd (make_move (play new_game ms) a b)) \<noteq> UNFINISHED \<and>
      play (snd (make_move (play new_game ms) a b)) ms' =
        snd (make_move (play new_game ms) a b))"
proof -
  let ?g = "play new_game ms"
  have inv: "king_inv ?g"
    using king_inv_new_game by (rule king_inv_play)
  then have wf: "wf_board (board ?g)"
    by (simp add: king_inv_def)
  have "game_state (snd (make_move ?g a b)) \<noteq> UNFINISHED \<and>
        play (snd (make_move ?g a b)) ms' = snd (make_move ?g a b)"
    if lost: "kings (CHR ''K'') (board (snd (make_move ?g a b))) < kings (CHR ''K'') (board ?g) \<or>
       kings (CHR ''k'') (board (snd (make_move ?g a b))) < kings (CHR ''k'') (board ?g)"
  proof -
    note K = kings_make_move [OF wf, of "CHR ''K''" a b, simplified]
    note k = kings_make_move [OF wf, of "CHR ''k''" a b, simplified]
    from lost K k have "game_state (snd (make_move ?g a b)) \<noteq> UNFINISHED"
      by auto
    then show ?thesis
      by (simp add: play_finished)
  qed
  with inv show ?thesis
    unfolding king_inv_def by blast
qed

theorem one_king_each_witness:
  "game_state (play new_game [(py_str ''e2'', py_str ''e4''), (py_str ''zz'', py_str ''e5''), (py_str ''e7'', py_str ''e5'')]) = UNFINISHED \<and>
   kings (CHR ''K'') (board (play new_game [(py_str ''e2'', py_str ''e4''), (py_str ''zz'', py_str ''e5''), (py_str ''e7'', py_str ''e5'')])) = 1 \<and>
   kings (CHR ''k'') (board (play new_game [(py_str ''e2'', py_str ''e4''), (py_str ''zz'', py_str ''e5''), (py_str ''e7'', py_str ''e5'')])) = 1 \<and>
   kings (CHR ''K'') (board (snd (make_move (play new_game []) (py_str ''b1'') (py_str ''d2'')))) = 0 \<and>
   kings (CHR ''K'') (board (play new_game [])) = 1 \<and>
   game_state (snd (make_move (play new_game []) (py_str ''b1'') (py_str ''d2''))) \<noteq> UNFINISHED \<and>
   play (snd (make_move (play new_game []) (py_str ''b1'') (py_str ''d2''))) [(py_str ''e7'', py_str ''e5'')] =
     snd (make_move (play new_game []) (py_str ''b1'') (py_str ''d2''))"
proof -
  have u: "game_state (play new_game [(py_str ''e2'', py_str ''e4''), (py_str ''zz'', py_str ''e5''), (py_str ''e7'', py_str ''e5'')]) =
           UNFINISHED"
    by code_simp
  have c: "kings (CHR ''K'') (board (snd (make_move (play new_game []) (py_str ''b1'') (py_str ''d2'')))) = 0"
    "kings (CHR ''K'') (board (play new_game [])) = 1"
    by code_simp+
  show ?thesis
    using one_king_each_while_unfinished
            [of "[(py_str ''e2'', py_str ''e4''), (py_str ''zz'', py_str ''e5''), (py_str ''e7'', py_str ''e5'')]"]
      one_king_each_while_unfinished [of "[]" "py_str ''b1''" "py_str ''d2''" "[(py_str ''e7'', py_str ''e5'')]"]
    unfolding u c by simp
qed

subsection \<open>Terminal freeze\<close>

text \<open>
  Claim C5. Once the outcome is not Unfinished, every call of \<open>make_move\<close>, for every
  pair of inputs, returns False and leaves the board, the turn and the outcome as they
  were; so does every sequence of calls, hence a terminal outcome never changes again.
\<close>

theorem terminal_freeze:
  "game_state g \<noteq> UNFINISHED \<Longrightarrow>
     make_move g a b = (Returned False, g) \<and> play g ms = g"
  by (simp add: make_move_finished play_finished)

theorem terminal_freeze_witness:
  "game_state (snd (make_move new_game (py_str ''b1'') (py_str ''d2''))) = BLACK_WON \<and>
   make_move (snd (make_move new_game (py_str ''b1'') (py_str ''d2''))) (py_str ''e7'') (py_str ''e5'') =
     (Returned False, snd (make_move new_game (py_str ''b1'') (py_str ''d2''))) \<and>
   play (snd (make_move new_game (py_str ''b1'') (py_str ''d2''))) [(py_str ''e7'', py_str ''e5''), (py_str ''zz'', [])] =
     snd (make_move new_game (py_str ''b1'') (py_str ''d2''))"
proof -
  have won: "game_state (snd (make_move new_game (py_str ''b1'') (py_str ''d2''))) = BLACK_WON"
    by code_simp
  then have "game_state (snd (make_move new_game (py_str ''b1'') (py_str ''d2''))) \<noteq> UNFINISHED"
    by simp
  from terminal_freeze [OF this] won show ?thesis
    by blast
qed

subsection \<open>The knight's destination test\<close>

text \<open>
  Claim C2. A knight move is legal iff its shape is (1,2) or (2,1) and the destination is
  empty or holds an opposing piece. The code applies the destination test to the (2,1)
  shape only: in the initial position the white knight on b1 (row 7, column 1) may move
  to d2 (row 6, column 3), which holds a white pawn; the knight takes its own pawn and
  the explosion then removes the white king.
\<close>

theorem knight_takes_own_pawn:
  "cell (board new_game) 7 1 = Some (CHR ''N'') \<and>
   cell (board new_game) 6 3 = Some (CHR ''P'') \<and>
   is_valid_move new_game (CHR ''N'') 7 1 6 3 = Inr (Some True) \<and>
   make_move new_game (py_str ''b1'') (py_str ''d2'') =
     (Returned True,
      \<lparr> board =
          [''rnbqkbnr'',
           ''pppppppp'',
           ''        '',
           ''        '',
           ''        '',
           ''        '',
           ''PPP PPPP'',
           ''R    BNR''],
        current_turn = W,
        game_state = BLACK_WON \<rparr>)"
  by code_simp

subsection \<open>The winner of a direct king capture\<close>

text \<open>
  Claim C1. When a move takes the opponent's king, the side that moved wins. The code
  sets the outcome to a win for White whenever the piece taken is a king, whichever side
  took it: after 1. f3 e6 2. a3 Qh4 3. a4 it is Black's turn, the black queen on h4 takes
  the white king on e1, the black king stays on e8, and the outcome is a win for White.
\<close>

theorem black_takes_king_white_wins:
  "play new_game
     [(py_str ''f2'', py_str ''f3''), (py_str ''e7'', py_str ''e6''),
      (py_str ''a2'', py_str ''a3''), (py_str ''d8'', py_str ''h4''),
      (py_str ''a3'', py_str ''a4'')] =
     \<lparr> board =
         [''rnb kbnr'',
          ''pppp ppp'',
          ''    p   '',
          ''        '',
          ''P      q'',
          ''     P  '',
          '' PPPP PP'',
          ''RNBQKBNR''],
       current_turn = B,
       game_state = UNFINISHED \<rparr> \<and>
   make_move
     (play new_game
        [(py_str ''f2'', py_str ''f3''), (py_str ''e7'', py_str ''e6''),
         (py_str ''a2'', py_str ''a3''), (py_str ''d8'', py_str ''h4''),
         (py_str ''a3'', py_str ''a4'')])
     (py_str ''h4'') (py_str ''e1'') =
     (Returned True,
      \<lparr> board =
          [''rnb kbnr'',
           ''pppp ppp'',
           ''    p   '',
           ''        '',
           ''P       '',
           ''     P  '',
           '' PPPP PP'',
           ''RNB   NR''],
        current_turn = B,
        game_state = WHITE_WON \<rparr>)"
  by code_simp

end
